theory Spec2Isabelle
  imports Complex_Main "HOL-Library.Word" "HOL-Library.Sublist" "HOL-Library.AList"
begin

section \<open>Text primitives\<close>

text \<open>
  Page text is a sequence of code units. The model keeps the 8-bit range (Latin-1), on
  which \<open>charCodeAt\<close>, \<open>trim\<close> and \<open>toLowerCase\<close> are written out below.
\<close>

type_synonym hash = "32 word"

definition isWhiteSpace :: "char \<Rightarrow> bool" where
  "isWhiteSpace c = ((of_char c :: nat) \<in> {9, 10, 11, 12, 13, 32, 160})"

definition trim :: "string \<Rightarrow> string" where
  "trim s = rev (dropWhile isWhiteSpace (rev (dropWhile isWhiteSpace s)))"

definition lowerChar :: "char \<Rightarrow> char" where
  "lowerChar c =
     (let n = (of_char c :: nat)
      in if (65 \<le> n \<and> n \<le> 90) \<or> (192 \<le> n \<and> n \<le> 222 \<and> n \<noteq> 215)
         then char_of (n + 32) else c)"

definition toLowerCase :: "string \<Rightarrow> string" where
  "toLowerCase s = map lowerChar s"

text \<open>
  \<open>hashString\<close>: \<open>hash = (hash << 5) - hash + char; hash = hash & hash\<close>. The
  bitwise operations convert to a 32-bit integer, so the arithmetic is that of
  \<open>32 word\<close>.
\<close>

definition hashStep :: "hash \<Rightarrow> char \<Rightarrow> hash" where
  "hashStep h c = push_bit 5 h - h + of_nat (of_char c)"

definition hashString :: "string \<Rightarrow> hash" where
  "hashString str = foldl hashStep 0 str"

text \<open>\<open>Set<number>\<close> in insertion order: \<open>add\<close> keeps an element already present.\<close>

definition setAdd :: "hash \<Rightarrow> hash list \<Rightarrow> hash list" where
  "setAdd h known = (if h \<in> set known then known else known @ [h])"

section \<open>The page as the driver shows it\<close>

text \<open>A driver call either throws or returns.\<close>

datatype 'a js = Threw | Returned 'a

text \<open>An element handle, as far as the code reads it: the outcome of \<open>innerText()\<close>.\<close>

type_synonym element = "string js"

text \<open>
  A \<open>.to-user-container\<close>: the outcome of \<open>container.$(".message-text-content")\<close>,
  which throws, returns null, or returns the text element.
\<close>

type_synonym container = "element option js"

text \<open>
  An element found by a fallback selector: the outcome of the \<open>closest(...)\<close> lookup
  (throws, no element, or the enclosing element) and the element itself.
\<close>

record fb_element =
  closest :: "element option js"
  own :: element

text \<open>An element as the in-page script of the last fallback sees it.\<close>

record dom_el =
  elId :: nat
  visible :: bool
  innerTextOf :: string
  textContentOf :: string

text \<open>
  The page at one moment: the thinking indicator (the query throws, finds nothing, or
  finds an element whose \<open>isVisible()\<close> throws or answers), the
  \<open>.to-user-container\<close> elements (or the query throws), what each fallback
  selector finds (or that it throws), whether \<open>page.evaluate\<close> throws, and
  what each selector of the in-page script finds.
\<close>

record page =
  thinking :: "bool js option js"
  primary :: "container list js"
  fallback :: "string \<Rightarrow> fb_element list js"
  evaluateThrows :: bool
  rawQuery :: "string \<Rightarrow> dom_el list"

definition RESPONSE_SELECTORS :: "string list" where
  "RESPONSE_SELECTORS =
    [''.to-user-container .message-text-content'',
     ''[data-message-author='' @ [CHR 0x27] @ ''bot'' @ [CHR 0x27] @ '']'',
     ''[data-message-author='' @ [CHR 0x27] @ ''assistant'' @ [CHR 0x27] @ '']'',
     ''[data-message-role='' @ [CHR 0x27] @ ''assistant'' @ [CHR 0x27] @ '']'',
     ''[data-author='' @ [CHR 0x27] @ ''assistant'' @ [CHR 0x27] @ '']'',
     ''[data-renderer*='' @ [CHR 0x27] @ ''assistant'' @ [CHR 0x27] @ '']'',
     ''[data-automation-id='' @ [CHR 0x27] @ ''response-text'' @ [CHR 0x27] @ '']'',
     ''[data-automation-id='' @ [CHR 0x27] @ ''assistant-response'' @ [CHR 0x27] @ '']'',
     ''[data-automation-id='' @ [CHR 0x27] @ ''chat-response'' @ [CHR 0x27] @ '']'',
     ''[data-testid*='' @ [CHR 0x27] @ ''assistant'' @ [CHR 0x27] @ '']'',
     ''[data-testid*='' @ [CHR 0x27] @ ''response'' @ [CHR 0x27] @ '']'',
     ''[aria-live='' @ [CHR 0x27] @ ''polite'' @ [CHR 0x27] @ '']'',
     ''[role='' @ [CHR 0x27] @ ''listitem'' @ [CHR 0x27] @ ''][data-message-author]'']"

definition RAW_SELECTORS :: "string list" where
  "RAW_SELECTORS =
    [''[data-message-author]'',
     ''[data-message-role]'',
     ''[data-author]'',
     ''[data-renderer*='' @ [CHR 0x27] @ ''assistant'' @ [CHR 0x27] @ '']'',
     ''[data-testid*='' @ [CHR 0x27] @ ''assistant'' @ [CHR 0x27] @ '']'',
     ''[data-automation-id*='' @ [CHR 0x27] @ ''response'' @ [CHR 0x27] @ '']'']"

section \<open>extractLatestText\<close>

text \<open>The scan of the primary containers: the first one with new text, else null.\<close>

fun scanContainers :: "hash list \<Rightarrow> container list \<Rightarrow> string option" where
  "scanContainers known [] = None"
| "scanContainers known (c # cs) =
     (case c of
        Threw \<Rightarrow> scanContainers known cs
      | Returned None \<Rightarrow> scanContainers known cs
      | Returned (Some Threw) \<Rightarrow> scanContainers known cs
      | Returned (Some (Returned text)) \<Rightarrow>
          if text \<noteq> [] \<and> trim text \<noteq> []
          then (if hashString (trim text) \<notin> set known then Some (trim text)
                else scanContainers known cs)
          else scanContainers known cs)"

text \<open>The element whose text a fallback match is read from.\<close>

definition fbContainer :: "fb_element \<Rightarrow> element" where
  "fbContainer e =
     (case closest e of
        Threw \<Rightarrow> own e
      | Returned None \<Rightarrow> own e
      | Returned (Some c) \<Rightarrow> c)"

fun scanElements :: "hash list \<Rightarrow> fb_element list \<Rightarrow> string option" where
  "scanElements known [] = None"
| "scanElements known (e # es) =
     (case fbContainer e of
        Threw \<Rightarrow> scanElements known es
      | Returned text \<Rightarrow>
          if text \<noteq> [] \<and> trim text \<noteq> [] \<and> hashString (trim text) \<notin> set known
          then Some (trim text)
          else scanElements known es)"

fun scanSelectors :: "page \<Rightarrow> hash list \<Rightarrow> string list \<Rightarrow> string option" where
  "scanSelectors p known [] = None"
| "scanSelectors p known (selector # rest) =
     (case fallback p selector of
        Threw \<Rightarrow> scanSelectors p known rest
      | Returned elements \<Rightarrow>
          (case scanElements known elements of
             Some t \<Rightarrow> Some t
           | None \<Rightarrow> scanSelectors p known rest))"

text \<open>
  The in-page script of the last fallback: visible elements not seen before, with
  non-blank text, collected over the raw selectors; the state is the set \<open>unique\<close> and
  the list \<open>candidates\<close>.
\<close>

fun collectEls :: "nat list \<times> string list \<Rightarrow> dom_el list \<Rightarrow> nat list \<times> string list" where
  "collectEls (unique, candidates) [] = (unique, candidates)"
| "collectEls (unique, candidates) (el # els) =
     (if \<not> visible el then collectEls (unique, candidates) els
      else if elId el \<in> set unique then collectEls (unique, candidates) els
      else
        (let text = (if innerTextOf el \<noteq> [] then innerTextOf el else textContentOf el)
         in if trim text = [] then collectEls (unique @ [elId el], candidates) els
            else collectEls (unique @ [elId el], candidates @ [trim text]) els))"

fun collectRaw :: "page \<Rightarrow> nat list \<times> string list \<Rightarrow> string list \<Rightarrow> nat list \<times> string list" where
  "collectRaw p st [] = st"
| "collectRaw p st (selector # rest) = collectRaw p (collectEls st (rawQuery p selector)) rest"

definition rawScan :: "page \<Rightarrow> string option js" where
  "rawScan p =
     (if evaluateThrows p then Threw
      else
        (let candidates = snd (collectRaw p ([], []) RAW_SELECTORS)
         in if length candidates > 0 then Returned (Some (candidates ! (length candidates - 1)))
            else Returned None))"

definition extractFallback :: "page \<Rightarrow> hash list \<Rightarrow> string option" where
  "extractFallback p known =
     (case scanSelectors p known RESPONSE_SELECTORS of
        Some t \<Rightarrow> Some t
      | None \<Rightarrow>
          (case rawScan p of
             Returned (Some fallbackText) \<Rightarrow>
               if trim fallbackText \<noteq> [] then Some (trim fallbackText) else None
           | Returned None \<Rightarrow> None
           | Threw \<Rightarrow> None))"

definition extractLatestText :: "page \<Rightarrow> hash list \<Rightarrow> string option" where
  "extractLatestText p known =
     (case primary p of
        Returned containers \<Rightarrow>
          if length containers \<le> length known then None
          else if length containers > 0 then scanContainers known containers
          else extractFallback p known
      | Threw \<Rightarrow> extractFallback p known)"

section \<open>waitForLatestAnswer\<close>

datatype error = Error string | RateLimitError string

text \<open>
  One iteration of the polling loop sees the page as it is at that moment. It calls
  \<open>page.waitForTimeout\<close> in one of two places, and either call throws when the page
  has gone: the call in the thinking branch lies inside the \<open>try\<close> whose
  \<open>catch\<close> ignores every error, the call that ends the iteration does not.
  The list of polls is the iterations that start before the deadline.
\<close>

record poll =
  dom :: page
  thinkingWaitErr :: "error option"
  waitErr :: "error option"

definition initialKnown :: "string list \<Rightarrow> hash list" where
  "initialKnown ignoreTexts =
     foldl (\<lambda>known text. if trim text \<noteq> [] then setAdd (hashString (trim text)) known else known)
       [] ignoreTexts"

definition requiredStablePolls :: nat where
  "requiredStablePolls = 3"

definition thinkingVisible :: "page \<Rightarrow> bool" where
  "thinkingVisible p = (thinking p = Returned (Some (Returned True)))"

text \<open>
  The thinking branch reaches its \<open>continue\<close>: the indicator is visible and the wait
  after it does not throw. When that wait throws, the \<open>catch\<close> takes over and the
  same iteration goes on to the extraction.
\<close>

definition thinkingSkips :: "poll \<Rightarrow> bool" where
  "thinkingSkips t = (thinkingVisible (dom t) \<and> thinkingWaitErr t = None)"

definition afterWait :: "poll \<Rightarrow> (error + 'a) \<Rightarrow> (error + 'a)" where
  "afterWait t k = (case waitErr t of Some e \<Rightarrow> Inl e | None \<Rightarrow> k)"

text \<open>
  The loop, with its variables \<open>knownHashes\<close>, \<open>pollCount\<close>, \<open>lastCandidate\<close> and
  \<open>stableCount\<close>. The result is the returned text (or null at the deadline) and the
  value of \<open>pollCount\<close> at the return.
\<close>

fun waitLoop :: "string \<Rightarrow> hash list \<Rightarrow> nat \<Rightarrow> string option \<Rightarrow> nat \<Rightarrow> poll list
    \<Rightarrow> error + (string option \<times> nat)" where
  "waitLoop sanitizedQuestion known pollCount lastCandidate stableCount [] =
     Inr (None, pollCount)"
| "waitLoop sanitizedQuestion known pollCount lastCandidate stableCount (t # ts) =
     (if thinkingSkips t
      then waitLoop sanitizedQuestion known (pollCount + 1) lastCandidate stableCount ts
      else
        (case extractLatestText (dom t) known of
           None \<Rightarrow>
             afterWait t
               (waitLoop sanitizedQuestion known (pollCount + 1) lastCandidate stableCount ts)
         | Some candidate \<Rightarrow>
             (let normalized = trim candidate
              in if candidate = [] \<or> normalized = []
                 then afterWait t
                        (waitLoop sanitizedQuestion known (pollCount + 1) lastCandidate
                           stableCount ts)
                 else if toLowerCase normalized = sanitizedQuestion
                 then afterWait t
                        (waitLoop sanitizedQuestion (setAdd (hashString normalized) known)
                           (pollCount + 1) lastCandidate stableCount ts)
                 else
                   (let stableCount' =
                          (if Some normalized = lastCandidate then stableCount + 1 else 1);
                        lastCandidate' =
                          (if Some normalized = lastCandidate then lastCandidate
                           else Some normalized)
                    in if stableCount' \<ge> requiredStablePolls
                       then Inr (Some normalized, pollCount + 1)
                       else afterWait t
                              (waitLoop sanitizedQuestion known (pollCount + 1) lastCandidate'
                                 stableCount' ts)))))"

definition waitForLatestAnswerAt :: "string \<Rightarrow> string list \<Rightarrow> poll list
    \<Rightarrow> error + (string option \<times> nat)" where
  "waitForLatestAnswerAt question ignoreTexts polls =
     waitLoop (toLowerCase (trim question)) (initialKnown ignoreTexts) 0 None 0 polls"

definition waitForLatestAnswer :: "string \<Rightarrow> string list \<Rightarrow> poll list
    \<Rightarrow> error + string option" where
  "waitForLatestAnswer question ignoreTexts polls =
     map_sum id fst (waitForLatestAnswerAt question ignoreTexts polls)"

subsection \<open>What each poll observes\<close>

text \<open>
  The normalized candidate a poll yields under the known hashes of that moment: none
  when the thinking branch skips the poll or nothing non-blank is extracted.
\<close>

definition tickCandidate :: "hash list \<Rightarrow> poll \<Rightarrow> string option" where
  "tickCandidate known t =
     (if thinkingSkips t then None
      else (case extractLatestText (dom t) known of
              None \<Rightarrow> None
            | Some candidate \<Rightarrow>
                if candidate = [] \<or> trim candidate = [] then None else Some (trim candidate)))"

text \<open>
  The candidate-bearing observations of a poll sequence, poll by poll: a poll that is
  skipped or that yields the echo of the question observes nothing; the echo's hash
  joins the known hashes for the polls after it.
\<close>

fun observations :: "string \<Rightarrow> hash list \<Rightarrow> poll list \<Rightarrow> string option list" where
  "observations sq known [] = []"
| "observations sq known (t # ts) =
     (case tickCandidate known t of
        None \<Rightarrow> None # observations sq known ts
      | Some n \<Rightarrow>
          if toLowerCase n = sq
          then None # observations sq (setAdd (hashString n) known) ts
          else Some n # observations sq known ts)"

definition seen :: "string option list \<Rightarrow> string list" where
  "seen os = concat (map (\<lambda>x. case x of None \<Rightarrow> [] | Some c \<Rightarrow> [c]) os)"

text \<open>The observations of one call, from the known hashes it starts with.\<close>

definition observed :: "string \<Rightarrow> string list \<Rightarrow> poll list \<Rightarrow> string option list" where
  "observed question ignoreTexts polls =
     observations (toLowerCase (trim question)) (initialKnown ignoreTexts) polls"

text \<open>The number of copies of \<open>c\<close> that end the list \<open>H\<close>.\<close>

definition runLength :: "string \<Rightarrow> string list \<Rightarrow> nat" where
  "runLength c H = length (takeWhile (\<lambda>x. x = c) (rev H))"

text \<open>A page whose primary containers hold the given texts, with nothing else on it.\<close>

definition answerPage :: "string list \<Rightarrow> page" where
  "answerPage texts =
     \<lparr> thinking = Returned None,
       primary = Returned (map (\<lambda>t. Returned (Some (Returned t))) texts),
       fallback = (\<lambda>_. Returned []),
       evaluateThrows = False,
       rawQuery = (\<lambda>_. []) \<rparr>"

definition thinkingPage :: "string list \<Rightarrow> page" where
  "thinkingPage texts = (answerPage texts) \<lparr> thinking := Returned (Some (Returned True)) \<rparr>"

definition tick :: "page \<Rightarrow> poll" where
  "tick p = \<lparr> dom = p, thinkingWaitErr = None, waitErr = None \<rparr>"

text \<open>A poll during which the page goes away: both waits would throw.\<close>

definition lostTick :: "page \<Rightarrow> poll" where
  "lostTick p =
     \<lparr> dom = p,
       thinkingWaitErr = Some (Error ''page.waitForTimeout: Target page, context or browser has been closed''),
       waitErr = Some (Error ''page.waitForTimeout: Target page, context or browser has been closed'') \<rparr>"

subsection \<open>First unseen text block, as the specification words it\<close>

text \<open>The readable, non-blank, trimmed text of a primary container, if it has one.\<close>

definition containerText :: "container \<Rightarrow> string option" where
  "containerText c =
     (case c of
        Returned (Some (Returned text)) \<Rightarrow>
          if text \<noteq> [] \<and> trim text \<noteq> [] then Some (trim text) else None
      | _ \<Rightarrow> None)"

definition textBlocks :: "container list \<Rightarrow> string list" where
  "textBlocks containers = seen (map containerText containers)"

definition elementText :: "fb_element \<Rightarrow> string option" where
  "elementText e =
     (case fbContainer e of
        Returned text \<Rightarrow> if text \<noteq> [] \<and> trim text \<noteq> [] then Some (trim text) else None
      | Threw \<Rightarrow> None)"

text \<open>The text blocks the fallback selectors reach: selector priority, then document order.\<close>

definition selectorBlocks :: "page \<Rightarrow> string \<Rightarrow> string list" where
  "selectorBlocks p selector =
     (case fallback p selector of
        Threw \<Rightarrow> []
      | Returned elements \<Rightarrow> seen (map elementText elements))"

definition fallbackBlocks :: "page \<Rightarrow> string list" where
  "fallbackBlocks p = concat (map (selectorBlocks p) RESPONSE_SELECTORS)"

definition firstUnseen :: "hash list \<Rightarrow> string list \<Rightarrow> string option" where
  "firstUnseen known texts = find (\<lambda>t. hashString t \<notin> set known) texts"

text \<open>A page on which only the raw scan finds elements: the primary query throws.\<close>

definition rawOnlyPage :: "dom_el list \<Rightarrow> page" where
  "rawOnlyPage els =
     \<lparr> thinking = Returned None,
       primary = Threw,
       fallback = (\<lambda>_. Returned []),
       evaluateThrows = False,
       rawQuery = (\<lambda>selector. if selector = ''[data-message-author]'' then els else []) \<rparr>"

text \<open>A page on which only one fallback selector finds elements: the primary query throws.\<close>

definition fallbackOnlyPage :: "fb_element list \<Rightarrow> page" where
  "fallbackOnlyPage els =
     \<lparr> thinking = Returned None,
       primary = Threw,
       fallback = (\<lambda>selector. if selector = ''[data-author='' @ [CHR 0x27] @ ''assistant'' @ [CHR 0x27] @ '']''
                               then Returned els else Returned []),
       evaluateThrows = False,
       rawQuery = (\<lambda>_. []) \<rparr>"

section \<open>Credential validity\<close>

text \<open>A cookie as \<open>context.cookies()\<close> lists it; \<open>expires\<close> may be missing.\<close>

record cookie =
  name :: string
  domain :: string
  expires :: "real option"

definition CRITICAL_COOKIE_NAMES :: "string list" where
  "CRITICAL_COOKIE_NAMES =
     [''SID'', ''HSID'', ''SSID'', ''APISID'', ''SAPISID'', ''OSID'', ''__Secure-OSID'',
      ''__Secure-1PSID'', ''__Secure-3PSID'']"

text \<open>\<open>cookie.expires ?? -1\<close>\<close>

definition expiresOr :: "cookie \<Rightarrow> real" where
  "expiresOr c = (case expires c of None \<Rightarrow> - 1 | Some e \<Rightarrow> e)"

text \<open>The loop that collects the names of the expired critical cookies.\<close>

fun expiredNames :: "real \<Rightarrow> cookie list \<Rightarrow> string list" where
  "expiredNames currentTime [] = []"
| "expiredNames currentTime (c # cs) =
     (if expiresOr c = - 1 then expiredNames currentTime cs
      else if expiresOr c < currentTime then name c # expiredNames currentTime cs
      else expiredNames currentTime cs)"

text \<open>
  \<open>validateCookiesExpiry\<close>, given the outcome of \<open>context.cookies()\<close> and
  \<open>currentTime\<close>, the number that \<open>Date.now() / 1000\<close> evaluates to. Expiries
  and \<open>currentTime\<close> are numbers of the program, compared as the reals they denote.
  A throw is caught and gives false.
\<close>

definition validateCookiesExpiry :: "cookie list js \<Rightarrow> real \<Rightarrow> bool" where
  "validateCookiesExpiry ctx currentTime =
     (case ctx of
        Threw \<Rightarrow> False
      | Returned cookies \<Rightarrow>
          if length cookies = 0 then False
          else
            (let criticalCookies = filter (\<lambda>c. name c \<in> set CRITICAL_COOKIE_NAMES) cookies
             in if length criticalCookies = 0 then False
                else
                  (let expiredCookies = expiredNames currentTime criticalCookies
                   in if length expiredCookies > 0 then False else True)))"

text \<open>
  The saved state file: whether \<open>existsSync\<close> finds it, what \<open>fs.stat\<close> gives for
  its modification time (or that it throws), and the cookies recorded in it.
\<close>

record state_file =
  fileExists :: bool
  mtimeMs :: "real js"
  savedCookies :: "cookie list"

definition getStatePath :: "string \<Rightarrow> state_file \<Rightarrow> string option" where
  "getStatePath stateFilePath f = (if fileExists f then Some stateFilePath else None)"

definition isStateExpired :: "state_file \<Rightarrow> real \<Rightarrow> bool" where
  "isStateExpired f nowMs =
     (case mtimeMs f of
        Threw \<Rightarrow> True
      | Returned m \<Rightarrow>
          (let fileAgeSeconds = (nowMs - m) / 1000;
               maxAgeSeconds = 24 * 60 * 60
           in if fileAgeSeconds > maxAgeSeconds then True else False))"

definition getValidStatePath :: "string \<Rightarrow> state_file \<Rightarrow> real \<Rightarrow> string option" where
  "getValidStatePath stateFilePath f nowMs =
     (case getStatePath stateFilePath f of
        None \<Rightarrow> None
      | Some statePath \<Rightarrow> if isStateExpired f nowMs then None else Some statePath)"

text \<open>The validity condition as the specification words it, for one cookie.\<close>

definition isCritical :: "cookie \<Rightarrow> bool" where
  "isCritical c = (name c \<in> set CRITICAL_COOKIE_NAMES)"

definition unexpired :: "real \<Rightarrow> cookie \<Rightarrow> bool" where
  "unexpired currentTime c = (expiresOr c = - 1 \<or> currentTime \<le> expiresOr c)"

section \<open>Browser session\<close>

text \<open>The lines the code writes to its log, as far as the model keeps them.\<close>

datatype log_event =
    LogCreated string
  | LogInitializing string
  | LogAlreadyInitialized string
  | LogInitialized string
  | LogInitFailed string
  | LogReinitializing
  | LogAsking string
  | LogReceived string nat
  | LogRecovering
  | LogRecoveryFailed error
  | LogAskFailed string string
  | LogClosing string
  | LogSessionClosed string
  | LogAutoId string
  | LogModeChange
  | LogReplacing string
  | LogReusing string
  | LogMaxReached
  | LogRemovingOldest string
  | LogCreating string
  | LogRegistered string nat
  | LogCreateFailed error
  | LogNotFound string
  | LogPoolClosed string nat

text \<open>
  \<open>BrowserSession\<close>: \<open>pageHandle\<close> is the field \<open>page\<close> (the tab, or null), times
  are \<open>Date.now()\<close> values.
\<close>

record session =
  sessionId :: string
  notebookUrl :: string
  createdAt :: nat
  lastActivity :: nat
  messageCount :: nat
  pageHandle :: "nat option"
  initialized :: bool

definition newBrowserSession :: "string \<Rightarrow> string \<Rightarrow> nat \<Rightarrow> session \<times> log_event list" where
  "newBrowserSession sid url now =
     (\<lparr> sessionId = sid, notebookUrl = url, createdAt = now, lastActivity = now,
        messageCount = 0, pageHandle = None, initialized = False \<rparr>,
      [LogCreated sid])"

text \<open>
  What the browser does during one run of \<open>init()\<close>: the outcome of acquiring the
  context and opening the tab (with the one retry on a closed context), the first error of
  the steps after it (navigation, authentication, storage, readiness), whether
  \<open>page.close()\<close> in the catch block throws, and the clock.
\<close>

record init_env =
  envNewPage :: "error + nat"
  envAfterNewPage :: "error option"
  envCloseOnFail :: "error option"
  envInitNow :: nat

text \<open>The catch block of \<open>init()\<close>.\<close>

definition initFailed :: "session \<Rightarrow> init_env \<Rightarrow> error
    \<Rightarrow> session \<times> log_event list \<times> error option" where
  "initFailed s env e =
     (if pageHandle s \<noteq> None
      then (case envCloseOnFail env of
              Some e' \<Rightarrow> (s, [LogInitializing (sessionId s), LogInitFailed (sessionId s)], Some e')
            | None \<Rightarrow> (s \<lparr> pageHandle := None \<rparr>,
                       [LogInitializing (sessionId s), LogInitFailed (sessionId s)], Some e))
      else (s, [LogInitializing (sessionId s), LogInitFailed (sessionId s)], Some e))"

definition init :: "session \<Rightarrow> init_env \<Rightarrow> session \<times> log_event list \<times> error option" where
  "init s env =
     (if initialized s then (s, [LogAlreadyInitialized (sessionId s)], None)
      else
        (case envNewPage env of
           Inl e \<Rightarrow> initFailed s env e
         | Inr h \<Rightarrow>
             (let s1 = s \<lparr> pageHandle := Some h \<rparr>
              in case envAfterNewPage env of
                   Some e \<Rightarrow> initFailed s1 env e
                 | None \<Rightarrow>
                     (s1 \<lparr> initialized := True, lastActivity := envInitNow env \<rparr>,
                      [LogInitializing (sessionId s), LogInitialized (sessionId s)], None))))"

text \<open>\<open>close()\<close>: an error of \<open>page.close()\<close> is caught and leaves the handle.\<close>

definition close :: "session \<Rightarrow> bool \<Rightarrow> session \<times> log_event list" where
  "close s pageCloseThrows =
     (let s1 = (if pageHandle s \<noteq> None \<and> \<not> pageCloseThrows then s \<lparr> pageHandle := None \<rparr> else s)
      in (s1 \<lparr> initialized := False \<rparr>,
          [LogClosing (sessionId s), LogSessionClosed (sessionId s)]))"

subsection \<open>Closed page or context: the pattern on the error message\<close>

definition asciiLower :: "char \<Rightarrow> char" where
  "asciiLower c =
     (let n = (of_char c :: nat) in if 65 \<le> n \<and> n \<le> 90 then char_of (n + 32) else c)"

fun ciPrefix :: "string \<Rightarrow> string \<Rightarrow> bool" where
  "ciPrefix [] s = True"
| "ciPrefix (p # ps) [] = False"
| "ciPrefix (p # ps) (c # cs) = (asciiLower p = asciiLower c \<and> ciPrefix ps cs)"

fun ciContains :: "string \<Rightarrow> string \<Rightarrow> bool" where
  "ciContains pat [] = ciPrefix pat []"
| "ciContains pat (c # cs) = (ciPrefix pat (c # cs) \<or> ciContains pat cs)"

definition isLineTerminator :: "char \<Rightarrow> bool" where
  "isLineTerminator c = ((of_char c :: nat) \<in> {10, 13})"

text \<open>\<open>.*\<close> followed by the text \<open>post\<close>: the dot matches no line terminator.\<close>

fun gapThen :: "string \<Rightarrow> string \<Rightarrow> bool" where
  "gapThen post [] = ciPrefix post []"
| "gapThen post (c # cs) =
     (ciPrefix post (c # cs) \<or> (\<not> isLineTerminator c \<and> gapThen post cs))"

fun ciContainsGap :: "string \<Rightarrow> string \<Rightarrow> string \<Rightarrow> bool" where
  "ciContainsGap pre post [] = (ciPrefix pre [] \<and> gapThen post [])"
| "ciContainsGap pre post (c # cs) =
     ((ciPrefix pre (c # cs) \<and> gapThen post (drop (length pre) (c # cs)))
      \<or> ciContainsGap pre post cs)"

text \<open>\<open>/has been closed|Target .* closed|Browser has been closed|Context .* closed/i\<close>\<close>

definition closedPattern :: "string \<Rightarrow> bool" where
  "closedPattern msg =
     (ciContains ''has been closed'' msg
      \<or> ciContainsGap ''Target '' '' closed'' msg
      \<or> ciContains ''Browser has been closed'' msg
      \<or> ciContainsGap ''Context '' '' closed'' msg)"

text \<open>\<open>String(error?.message || error)\<close>\<close>

definition errorString :: "error \<Rightarrow> string" where
  "errorString e =
     (case e of
        Error m \<Rightarrow> if m \<noteq> [] then m else ''Error''
      | RateLimitError m \<Rightarrow> if m \<noteq> [] then m else ''RateLimitError'')"

subsection \<open>snapshotAllResponses, findChatInput, detectRateLimitError\<close>

fun snapshotLoop :: "container list \<Rightarrow> string list \<Rightarrow> string list" where
  "snapshotLoop [] allTexts = allTexts"
| "snapshotLoop (c # cs) allTexts =
     (case c of
        Threw \<Rightarrow> snapshotLoop cs allTexts
      | Returned None \<Rightarrow> snapshotLoop cs allTexts
      | Returned (Some Threw) \<Rightarrow> snapshotLoop cs allTexts
      | Returned (Some (Returned text)) \<Rightarrow>
          if text \<noteq> [] \<and> trim text \<noteq> [] then snapshotLoop cs (allTexts @ [trim text])
          else snapshotLoop cs allTexts)"

definition snapshotAllResponses :: "page \<Rightarrow> string list" where
  "snapshotAllResponses p =
     (case primary p of
        Threw \<Rightarrow> []
      | Returned containers \<Rightarrow>
          if length containers > 0 then snapshotLoop containers [] else [])"

definition CHAT_INPUT_SELECTORS :: "string list" where
  "CHAT_INPUT_SELECTORS =
     [''textarea.query-box-input'',
      ''textarea[aria-label='' @ [CHR 0x22] @ ''Feld f'' @ [CHR 0xFC] @ ''r Anfragen''
        @ [CHR 0x22] @ '']'']"

fun findVisible :: "(string \<Rightarrow> bool js option js) \<Rightarrow> string list \<Rightarrow> string option" where
  "findVisible q [] = None"
| "findVisible q (selector # rest) =
     (case q selector of
        Returned (Some (Returned True)) \<Rightarrow> Some selector
      | _ \<Rightarrow> findVisible q rest)"

definition findChatInput :: "session \<Rightarrow> (string \<Rightarrow> bool js option js) \<Rightarrow> string option" where
  "findChatInput s q = (if pageHandle s = None then None else findVisible q CHAT_INPUT_SELECTORS)"

text \<open>
  The page as the rate-limit check reads it: the elements each error selector finds, and
  the chat input with its disabled state and its parent element.
\<close>

record input_state =
  inputDisabled :: "bool js"
  inputParent :: "element option js"

record alerts =
  errorQuery :: "string \<Rightarrow> element list js"
  chatInput :: "input_state option js"

definition errorSelectors :: "string list" where
  "errorSelectors =
     [''.error-message'', ''.error-container'',
      ''[role='' @ [CHR 0x27] @ ''alert'' @ [CHR 0x27] @ '']'',
      ''.rate-limit-message'', ''[data-error]'', ''.notification-error'', ''.alert-error'',
      ''.toast-error'']"

definition rateLimitKeywords :: "string list" where
  "rateLimitKeywords =
     [''rate limit'', ''limit exceeded'', ''quota exhausted'', ''daily limit'',
      ''limit reached'', ''too many requests'', ''ratenlimit'', ''quota'', ''query limit'',
      ''request limit'']"

fun includesText :: "string \<Rightarrow> string \<Rightarrow> bool" where
  "includesText [] k = (k = [])"
| "includesText (c # cs) k = (prefix k (c # cs) \<or> includesText cs k)"

definition hasKeyword :: "string \<Rightarrow> bool" where
  "hasKeyword text = (let lower = toLowerCase text in list_ex (\<lambda>k. includesText lower k) rateLimitKeywords)"

fun scanAlertElements :: "element list \<Rightarrow> bool" where
  "scanAlertElements [] = False"
| "scanAlertElements (el # els) =
     (case el of
        Threw \<Rightarrow> scanAlertElements els
      | Returned text \<Rightarrow> if hasKeyword text then True else scanAlertElements els)"

fun scanAlertSelectors :: "(string \<Rightarrow> element list js) \<Rightarrow> string list \<Rightarrow> bool" where
  "scanAlertSelectors q [] = False"
| "scanAlertSelectors q (selector # rest) =
     (case q selector of
        Threw \<Rightarrow> scanAlertSelectors q rest
      | Returned elements \<Rightarrow>
          if scanAlertElements elements then True else scanAlertSelectors q rest)"

definition inputBlocked :: "alerts \<Rightarrow> bool" where
  "inputBlocked a =
     (case chatInput a of
        Returned (Some input) \<Rightarrow>
          (case inputDisabled input of
             Returned True \<Rightarrow>
               (case inputParent input of
                  Returned (Some (Returned parentText)) \<Rightarrow> hasKeyword parentText
                | _ \<Rightarrow> False)
           | _ \<Rightarrow> False)
      | _ \<Rightarrow> False)"

definition detectRateLimitError :: "session \<Rightarrow> alerts \<Rightarrow> bool" where
  "detectRateLimitError s a =
     (if pageHandle s = None then False
      else if scanAlertSelectors (errorQuery a) errorSelectors then True
      else inputBlocked a)"

subsection \<open>ask\<close>

text \<open>
  What the browser does during one run of \<open>askOnce\<close>: whether the tab is found closed,
  the run of \<open>init()\<close> if there is one, the cookies and the current time (in
  seconds) of the authentication check, the outcome of \<open>ensureAuthenticated()\<close>, the page when the
  existing responses are snapshotted, the chat input probes, whether typing or the Enter
  key throws, the polls of the completion detector, the page when the rate limit is
  checked, and the clock at the end. The progress callback only observes and is left out.
\<close>

record ask_env =
  envPageClosed :: bool
  envInit :: init_env
  envCookies :: "cookie list js"
  envCurrentTime :: real
  envReAuth :: "error + bool"
  envBefore :: page
  envInputs :: "string \<Rightarrow> bool js option js"
  envTyping :: "error option"
  envEnter :: "error option"
  envPolls :: "poll list"
  envAlerts :: alerts
  envDoneNow :: nat

definition ensureInitialized :: "session \<Rightarrow> ask_env
    \<Rightarrow> session \<times> log_event list \<times> error option" where
  "ensureInitialized s env =
     (if \<not> initialized s \<or> pageHandle s = None \<or> envPageClosed env
      then (case init s (envInit env) of (s1, l, r) \<Rightarrow> (s1, LogReinitializing # l, r))
      else (s, [], None))"

definition ensureAuthenticated :: "session \<Rightarrow> ask_env \<Rightarrow> error + bool" where
  "ensureAuthenticated s env =
     (if pageHandle s = None then Inl (Error ''Page not initialized'') else envReAuth env)"

text \<open>The steps of \<open>askOnce\<close> from typing the question to the end of the wait.\<close>

definition submitAndWait :: "session \<Rightarrow> string \<Rightarrow> ask_env \<Rightarrow> error + string" where
  "submitAndWait s question env =
     (let existingResponses =
            (if pageHandle s = None then [] else snapshotAllResponses (envBefore env))
      in case findChatInput s (envInputs env) of
           None \<Rightarrow>
             Inl (Error (''Could not find visible chat input element. ''
                         @ ''Please check if the notebook page has loaded correctly.''))
         | Some inputSelector \<Rightarrow>
             (case envTyping env of
                Some e \<Rightarrow> Inl e
              | None \<Rightarrow>
                  (case envEnter env of
                     Some e \<Rightarrow> Inl e
                   | None \<Rightarrow>
                       (case waitForLatestAnswer question existingResponses (envPolls env) of
                          Inl e \<Rightarrow> Inl e
                        | Inr None \<Rightarrow> Inl (Error ''Timeout waiting for response from NotebookLM'')
                        | Inr (Some answer) \<Rightarrow>
                            if answer = []
                            then Inl (Error ''Timeout waiting for response from NotebookLM'')
                            else Inr answer))))"

text \<open>\<open>askOnce\<close> up to the point where the answer is in hand.\<close>

definition askUntilAnswer :: "session \<Rightarrow> string \<Rightarrow> ask_env
    \<Rightarrow> session \<times> log_event list \<times> (error + string)" where
  "askUntilAnswer s question env =
     (case ensureInitialized s env of
        (s1, l1, Some e) \<Rightarrow> (s1, l1, Inl e)
      | (s1, l1, None) \<Rightarrow>
          (let l2 = l1 @ [LogAsking (sessionId s1)];
               isAuth = validateCookiesExpiry (envCookies env) (envCurrentTime env)
           in case (if isAuth then Inr True else ensureAuthenticated s1 env) of
                Inl e \<Rightarrow> (s1, l2, Inl e)
              | Inr reAuthSuccess \<Rightarrow>
                  if \<not> reAuthSuccess
                  then (s1, l2, Inl (Error ''Failed to re-authenticate session''))
                  else (s1, l2, submitAndWait s1 question env)))"

definition rateLimitMessage :: string where
  "rateLimitMessage = ''NotebookLM rate limit reached (50 queries/day for free accounts)''"

definition askOnce :: "session \<Rightarrow> string \<Rightarrow> ask_env
    \<Rightarrow> session \<times> log_event list \<times> (error + string)" where
  "askOnce s question env =
     (case askUntilAnswer s question env of
        (s1, l, Inl e) \<Rightarrow> (s1, l, Inl e)
      | (s1, l, Inr answer) \<Rightarrow>
          if detectRateLimitError s1 (envAlerts env)
          then (s1, l, Inl (RateLimitError rateLimitMessage))
          else
            (let s2 = s1 \<lparr> messageCount := messageCount s1 + 1 \<rparr>;
                 s3 = s2 \<lparr> lastActivity := envDoneNow env \<rparr>
             in (s3, l @ [LogReceived (sessionId s3) (messageCount s3)], Inr answer)))"

text \<open>
  The browser during one call of \<open>ask\<close>: the first run of \<open>askOnce\<close>, the
  \<open>init()\<close> of the recovery, and the run of \<open>askOnce\<close> that retries.
\<close>

record ask_world =
  firstRun :: ask_env
  recoveryInit :: init_env
  retryRun :: ask_env

definition ask :: "session \<Rightarrow> string \<Rightarrow> ask_world
    \<Rightarrow> session \<times> log_event list \<times> (error + string)" where
  "ask s question w =
     (case askOnce s question (firstRun w) of
        (s1, l1, Inr answer) \<Rightarrow> (s1, l1, Inr answer)
      | (s1, l1, Inl err) \<Rightarrow>
          (let msg = errorString err
           in if closedPattern msg
              then
                (let s2 = s1 \<lparr> initialized := False \<rparr>;
                     s3 = s2 \<lparr> pageHandle := None \<rparr>
                 in case init s3 (recoveryInit w) of
                      (s4, l2, Some e2) \<Rightarrow>
                        (s4, l1 @ [LogRecovering] @ l2 @ [LogRecoveryFailed e2], Inl e2)
                    | (s4, l2, None) \<Rightarrow>
                        (case askOnce s4 question (retryRun w) of
                           (s5, l3, Inr answer) \<Rightarrow>
                             (s5, l1 @ [LogRecovering] @ l2 @ l3, Inr answer)
                         | (s5, l3, Inl e2) \<Rightarrow>
                             (s5, l1 @ [LogRecovering] @ l2 @ l3 @ [LogRecoveryFailed e2],
                              Inl e2)))
              else (s1, l1 @ [LogAskFailed (sessionId s1) msg], Inl err)))"

text \<open>Concrete runs, for evaluation.\<close>

definition goodInit :: "nat \<Rightarrow> init_env" where
  "goodInit h = \<lparr> envNewPage = Inr h, envAfterNewPage = None, envCloseOnFail = None,
                  envInitNow = 100 \<rparr>"

definition noAlerts :: alerts where
  "noAlerts = \<lparr> errorQuery = (\<lambda>_. Returned []), chatInput = Returned None \<rparr>"

definition validCookies :: "cookie list js" where
  "validCookies = Returned [\<lparr> name = ''SID'', domain = ''.google.com'', expires = None \<rparr>]"

text \<open>A run in which everything works and the polls show the given texts.\<close>

definition goodRun :: "string list list \<Rightarrow> ask_env" where
  "goodRun texts =
     \<lparr> envPageClosed = False, envInit = goodInit 7, envCookies = validCookies,
       envCurrentTime = 1000, envReAuth = Inr True, envBefore = answerPage [],
       envInputs = (\<lambda>_. Returned (Some (Returned True))), envTyping = None, envEnter = None,
       envPolls = map (tick \<circ> answerPage) texts, envAlerts = noAlerts, envDoneNow = 200 \<rparr>"

definition readySession :: session where
  "readySession =
     \<lparr> sessionId = ''s1'', notebookUrl = ''https://notebooklm.google.com/notebook/x'',
       createdAt = 0, lastActivity = 0, messageCount = 4, pageHandle = Some 1,
       initialized = True \<rparr>"

text \<open>
  Some element found by an error selector has readable text that includes "rate limit",
  compared in lower case.
\<close>

definition alertShowsRateLimit :: "alerts \<Rightarrow> bool" where
  "alertShowsRateLimit a =
     list_ex
       (\<lambda>selector.
          case errorQuery a selector of
            Threw \<Rightarrow> False
          | Returned els \<Rightarrow>
              list_ex
                (\<lambda>el. case el of
                         Threw \<Rightarrow> False
                       | Returned text \<Rightarrow> includesText (toLowerCase text) ''rate limit'')
                els)
       errorSelectors"



text \<open>An error toast that reports the rate limit.\<close>

definition rateLimitToast :: alerts where
  "rateLimitToast =
     \<lparr> errorQuery = (\<lambda>selector. if selector = ''.toast-error''
                                  then Returned [Threw, Returned ''Daily Rate Limit hit'']
                                  else Threw),
       chatInput = Threw \<rparr>"

section \<open>Session manager\<close>

text \<open>
  \<open>SessionManager\<close>: the map \<open>sessions\<close> in insertion order, the limit, and whether
  the cleanup timer is set.
\<close>

record pool =
  sessions :: "(string \<times> session) list"
  maxSessions :: int
  cleanupInterval :: bool

text \<open>
  What surrounds one call of the manager: the configured notebook URL, the identifier the
  random generator gives, whether the shared context reports a change of visibility mode,
  which tabs throw on \<open>page.close()\<close>, whether acquiring the shared context throws, the
  run of \<open>init()\<close> of a new session, and the clock.
\<close>

record create_env =
  envConfigUrl :: string
  envGeneratedId :: string
  envNeedsModeChange :: bool
  envPageCloseThrows :: "nat \<Rightarrow> bool"
  envContext :: "error option"
  envSessionInit :: init_env
  envNow :: nat

text \<open>
  The session objects outlive their entry in the map. Each operation of the manager
  therefore returns, next to the pool, the sessions on which it ran \<open>close()\<close>, in
  the state \<open>close()\<close> left them and in the order of the calls.
\<close>

definition closeIn :: "(nat \<Rightarrow> bool) \<Rightarrow> session \<Rightarrow> session \<times> log_event list" where
  "closeIn throws s =
     close s (case pageHandle s of None \<Rightarrow> False | Some h \<Rightarrow> throws h)"

fun digitsOf :: "nat \<Rightarrow> string" where
  "digitsOf n =
     (if n < 10 then [char_of (48 + n)] else digitsOf (n div 10) @ [char_of (48 + n mod 10)])"

definition showInt :: "int \<Rightarrow> string" where
  "showInt i = (if i < 0 then ''-'' @ digitsOf (nat (- i)) else digitsOf (nat i))"

text \<open>
  The loop of \<open>closeAllSessions\<close> over the keys; a key that is no longer in the map
  makes the body throw, which is caught. The state is the map, the sessions closed so
  far and the log.
\<close>

fun closeAllLoop :: "(nat \<Rightarrow> bool) \<Rightarrow> string list
    \<Rightarrow> (string \<times> session) list \<times> session list \<times> log_event list
    \<Rightarrow> (string \<times> session) list \<times> session list \<times> log_event list" where
  "closeAllLoop throws [] st = st"
| "closeAllLoop throws (sid # rest) (m, cl, l) =
     (case map_of m sid of
        None \<Rightarrow> closeAllLoop throws rest (m, cl, l)
      | Some s \<Rightarrow>
          (case closeIn throws s of
             (s1, ls) \<Rightarrow> closeAllLoop throws rest (AList.delete sid m, cl @ [s1], l @ ls)))"

definition closeAllSessions :: "pool \<Rightarrow> (nat \<Rightarrow> bool)
    \<Rightarrow> pool \<times> session list \<times> log_event list" where
  "closeAllSessions p throws =
     (let p1 = p \<lparr> cleanupInterval := False \<rparr>
      in if length (sessions p1) = 0 then (p1, [], [])
         else (case closeAllLoop throws (map fst (sessions p1)) (sessions p1, [], []) of
                 (m, cl, l) \<Rightarrow> (p1 \<lparr> sessions := m \<rparr>, cl, l)))"

text \<open>
  The search of \<open>cleanupOldestSession\<close>: \<open>oldestId\<close> and \<open>oldestTime\<close>, where no
  time stands for \<open>Infinity\<close>.
\<close>

fun findOldest :: "(string \<times> session) list \<Rightarrow> string option \<times> nat option
    \<Rightarrow> string option \<times> nat option" where
  "findOldest [] st = st"
| "findOldest ((sid, s) # rest) (oldestId, oldestTime) =
     (if (case oldestTime of None \<Rightarrow> True | Some t \<Rightarrow> createdAt s < t)
      then findOldest rest (Some sid, Some (createdAt s))
      else findOldest rest (oldestId, oldestTime))"

definition cleanupOldestSession :: "pool \<Rightarrow> (nat \<Rightarrow> bool)
    \<Rightarrow> pool \<times> session list \<times> log_event list \<times> bool" where
  "cleanupOldestSession p throws =
     (if length (sessions p) = 0 then (p, [], [], False)
      else
        (case fst (findOldest (sessions p) (None, None)) of
           None \<Rightarrow> (p, [], [], False)
         | Some oldestId \<Rightarrow>
             if oldestId = [] then (p, [], [], False)
             else
               (case map_of (sessions p) oldestId of
                  None \<Rightarrow> (p, [], [], False)
                | Some oldestSession \<Rightarrow>
                    (case closeIn throws oldestSession of
                       (s1, ls) \<Rightarrow>
                         (p \<lparr> sessions := AList.delete oldestId (sessions p) \<rparr>,
                          [s1], LogRemovingOldest oldestId # ls, True)))))"

text \<open>The capacity check of \<open>getOrCreateSession\<close>.\<close>

definition makeRoom :: "pool \<Rightarrow> create_env
    \<Rightarrow> pool \<times> session list \<times> log_event list \<times> error option" where
  "makeRoom p env =
     (if int (length (sessions p)) \<ge> maxSessions p
      then (case cleanupOldestSession p (envPageCloseThrows env) of
              (p1, cl, l, freed) \<Rightarrow>
                if \<not> freed
                then (p1, cl, LogMaxReached # l,
                      Some (Error (''Max sessions ('' @ showInt (maxSessions p)
                                   @ '') reached and no inactive sessions to clean up'')))
                else (p1, cl, LogMaxReached # l, None))
      else (p, [], [], None))"

text \<open>The creation of the new session, from the shared context to the registration.\<close>

definition createSession :: "pool \<Rightarrow> string \<Rightarrow> string \<Rightarrow> create_env
    \<Rightarrow> pool \<times> log_event list \<times> (error + session)" where
  "createSession p sid targetUrl env =
     (case envContext env of
        Some e \<Rightarrow> (p, [LogCreating sid, LogCreateFailed e], Inl e)
      | None \<Rightarrow>
          (case newBrowserSession sid targetUrl (envNow env) of
             (s0, lc) \<Rightarrow>
               (case init s0 (envSessionInit env) of
                  (s1, li, Some e) \<Rightarrow>
                    (p, [LogCreating sid] @ lc @ li @ [LogCreateFailed e], Inl e)
                | (s1, li, None) \<Rightarrow>
                    (let p1 = p \<lparr> sessions := AList.update sid s1 (sessions p) \<rparr>
                     in (p1,
                         [LogCreating sid] @ lc @ li
                           @ [LogRegistered sid (length (sessions p1))],
                         Inr s1)))))"

definition admit :: "pool \<Rightarrow> string \<Rightarrow> string \<Rightarrow> create_env
    \<Rightarrow> pool \<times> session list \<times> log_event list \<times> (error + session)" where
  "admit p sid targetUrl env =
     (case makeRoom p env of
        (p1, cl, l1, Some e) \<Rightarrow> (p1, cl, l1, Inl e)
      | (p1, cl, l1, None) \<Rightarrow>
          (case createSession p1 sid targetUrl env of
             (p2, l2, r) \<Rightarrow> (p2, cl, l1 @ l2, r)))"

definition getOrCreateSession :: "pool \<Rightarrow> string option \<Rightarrow> string option \<Rightarrow> bool option
    \<Rightarrow> create_env \<Rightarrow> pool \<times> session list \<times> log_event list \<times> (error + session)" where
  "getOrCreateSession p sessionIdArg notebookUrlArg overrideHeadless env =
     (let targetUrl =
            trim (case notebookUrlArg of
                    Some u \<Rightarrow> if u \<noteq> [] then u else envConfigUrl env
                  | None \<Rightarrow> envConfigUrl env)
      in if targetUrl = []
         then (p, [], [], Inl (Error ''Notebook URL is required to create a session''))
         else if \<not> prefix ''http'' targetUrl
         then (p, [], [], Inl (Error ''Notebook URL must be an absolute URL''))
         else
           (let given = (case sessionIdArg of Some i \<Rightarrow> i \<noteq> [] | None \<Rightarrow> False);
                sid = (case sessionIdArg of
                         Some i \<Rightarrow> if i \<noteq> [] then i else envGeneratedId env
                       | None \<Rightarrow> envGeneratedId env);
                l0 = (if given then [] else [LogAutoId sid]);
                (p1, cl1, l1) =
                  (if overrideHeadless \<noteq> None \<and> envNeedsModeChange env
                   then (case closeAllSessions p (envPageCloseThrows env) of
                           (q, cl, l) \<Rightarrow> (q, cl, LogModeChange # l))
                   else (p, [], []))
            in case map_of (sessions p1) sid of
                 Some s \<Rightarrow>
                   if notebookUrl s \<noteq> targetUrl
                   then
                     (case closeIn (envPageCloseThrows env) s of
                        (sc, lcl) \<Rightarrow>
                          (let p2 = p1 \<lparr> sessions := AList.delete sid (sessions p1) \<rparr>;
                               l2 = LogReplacing sid # lcl
                           in case admit p2 sid targetUrl env of
                                (p3, cl3, l3, r) \<Rightarrow>
                                  (p3, cl1 @ [sc] @ cl3, l0 @ l1 @ l2 @ l3, r)))
                   else
                     (let s1 = s \<lparr> lastActivity := envNow env \<rparr>
                      in (p1 \<lparr> sessions := AList.update sid s1 (sessions p1) \<rparr>,
                          cl1, l0 @ l1 @ [LogReusing sid], Inr s1))
               | None \<Rightarrow>
                   (case admit p1 sid targetUrl env of
                      (p3, cl3, l3, r) \<Rightarrow> (p3, cl1 @ cl3, l0 @ l1 @ l3, r))))"

definition closeSession :: "pool \<Rightarrow> string \<Rightarrow> (nat \<Rightarrow> bool)
    \<Rightarrow> pool \<times> session list \<times> log_event list \<times> bool" where
  "closeSession p sid throws =
     (case map_of (sessions p) sid of
        None \<Rightarrow> (p, [], [LogNotFound sid], False)
      | Some s \<Rightarrow>
          (case closeIn throws s of
             (s1, ls) \<Rightarrow>
               (let p1 = p \<lparr> sessions := AList.delete sid (sessions p) \<rparr>
                in (p1, [s1], ls @ [LogPoolClosed sid (length (sessions p1))], True))))"

text \<open>
  A session after \<open>close()\<close>: marked uninitialized, and without its tab unless
  \<open>page.close()\<close> threw.
\<close>

definition closedFrom :: "(nat \<Rightarrow> bool) \<Rightarrow> session \<Rightarrow> session" where
  "closedFrom throws s =
     s \<lparr> pageHandle := (case pageHandle s of
                          None \<Rightarrow> None
                        | Some h \<Rightarrow> if throws h then Some h else None),
         initialized := False \<rparr>"

text \<open>The sessions whose \<open>close()\<close> a log records, in order.\<close>

definition closedIds :: "log_event list \<Rightarrow> string list" where
  "closedIds l = concat (map (\<lambda>e. case e of LogClosing sid \<Rightarrow> [sid] | _ \<Rightarrow> []) l)"

text \<open>Concrete pools and surroundings, for evaluation.\<close>

definition sessionAt :: "string \<Rightarrow> nat \<Rightarrow> nat \<Rightarrow> session" where
  "sessionAt sid t h =
     \<lparr> sessionId = sid, notebookUrl = ''https://notebooklm.google.com/notebook/x'',
       createdAt = t, lastActivity = t, messageCount = 0, pageHandle = Some h,
       initialized = True \<rparr>"

definition poolAB :: pool where
  "poolAB =
     \<lparr> sessions = [(''A'', sessionAt ''A'' 0 1), (''B'', sessionAt ''B'' 1 2)],
       maxSessions = 2, cleanupInterval = True \<rparr>"

definition calmEnv :: create_env where
  "calmEnv =
     \<lparr> envConfigUrl = '''', envGeneratedId = ''0a1b2c3d'', envNeedsModeChange = False,
       envPageCloseThrows = (\<lambda>_. False), envContext = None, envSessionInit = goodInit 3,
       envNow = 2 \<rparr>"



definition notebookX :: string where
  "notebookX = ''https://notebooklm.google.com/notebook/x''"

text \<open>
  The shape of the map that the manager keeps: one entry per key, no empty key (an empty
  or missing id is replaced by a generated one), each session stored under its own id.
\<close>

definition poolInvariant :: "pool \<Rightarrow> bool" where
  "poolInvariant p =
     (distinct (map fst (sessions p))
      \<and> list_all (\<lambda>(k, s). k \<noteq> [] \<and> sessionId s = k) (sessions p))"

definition failingInit :: init_env where
  "failingInit =
     \<lparr> envNewPage = Inr 3,
       envAfterNewPage = Some (Error ''Could not find NotebookLM chat input.''),
       envCloseOnFail = None, envInitNow = 100 \<rparr>"

section \<open>Properties of the completion detector\<close>

lemma afterWait_Inr: "afterWait t k = Inr r \<Longrightarrow> k = Inr r"
  by (auto simp: afterWait_def split: option.splits)

lemma waitLoop_skip:
  "tickCandidate known t = None \<Longrightarrow>
   waitLoop sq known cnt lastC stab (t # ts) = Inr r \<Longrightarrow>
   waitLoop sq known (cnt + 1) lastC stab ts = Inr r"
  by (auto simp: tickCandidate_def Let_def split: option.splits if_splits dest: afterWait_Inr)

lemma waitLoop_echo:
  "tickCandidate known t = Some c \<Longrightarrow> toLowerCase c = sq \<Longrightarrow>
   waitLoop sq known cnt lastC stab (t # ts) = Inr r \<Longrightarrow>
   waitLoop sq (setAdd (hashString c) known) (cnt + 1) lastC stab ts = Inr r"
  by (auto simp: tickCandidate_def Let_def split: option.splits if_splits dest: afterWait_Inr)

lemma waitLoop_cand:
  "tickCandidate known t = Some c \<Longrightarrow> toLowerCase c \<noteq> sq \<Longrightarrow>
   waitLoop sq known cnt lastC stab (t # ts) =
     (if (if Some c = lastC then stab + 1 else 1) \<ge> 3 then Inr (Some c, cnt + 1)
      else afterWait t (waitLoop sq known (cnt + 1) (Some c)
                          (if Some c = lastC then stab + 1 else 1) ts))"
  by (auto simp: tickCandidate_def Let_def requiredStablePolls_def split: option.splits if_splits)

declare waitLoop.simps [simp del]

lemma seen_simps [simp]:
  "seen [] = []" "seen (None # os) = seen os" "seen (Some c # os) = c # seen os"
  by (simp_all add: seen_def)

lemma seen_append [simp]: "seen (xs @ ys) = seen xs @ seen ys"
  by (simp add: seen_def)

lemma length_seen: "length (seen os) \<le> length os"
proof (induction os)
  case Nil
  show ?case by simp
next
  case (Cons x os)
  then show ?case by (cases x) auto
qed

lemma runLength_snoc: "runLength c (H @ [c]) = Suc (runLength c H)"
  by (simp add: runLength_def)

lemma runLength_other: "H \<noteq> [] \<Longrightarrow> last H \<noteq> b \<Longrightarrow> runLength b H = 0"
  by (cases H rule: rev_cases) (simp_all add: runLength_def)

lemma runLength_Nil [simp]: "runLength b [] = 0"
  by (simp add: runLength_def)

lemma suffix3_iff:
  "suffix [b, b, b] H = (3 \<le> runLength b H)"
  unfolding runLength_def
proof
  assume "suffix [b, b, b] H"
  then obtain pre where "H = pre @ [b, b, b]" by (auto simp: suffix_def)
  then show "3 \<le> length (takeWhile (\<lambda>x. x = b) (rev H))" by simp
next
  assume a: "3 \<le> length (takeWhile (\<lambda>x. x = b) (rev H))"
  let ?tw = "takeWhile (\<lambda>x. x = b) (rev H)"
  have all: "\<forall>x \<in> set ?tw. x = b" by (auto dest: set_takeWhileD)
  have "?tw = replicate (length ?tw) b"
    using all by (simp add: replicate_length_same)
  moreover have "rev H = ?tw @ dropWhile (\<lambda>x. x = b) (rev H)" by simp
  ultimately have "rev H = replicate (length ?tw) b @ dropWhile (\<lambda>x. x = b) (rev H)" by simp
  then have "H = rev (dropWhile (\<lambda>x. x = b) (rev H)) @ replicate (length ?tw) b"
    by (metis rev_append rev_replicate rev_rev_ident)
  then have "suffix (replicate (length ?tw) b) H" by (metis suffixI)
  moreover have "suffix [b, b, b] (replicate (length ?tw) b)"
  proof -
    have "replicate (length ?tw) b = replicate (length ?tw - 3) b @ replicate 3 b"
      using a by (simp add: replicate_add [symmetric])
    then show ?thesis by (metis suffixI numeral_3_eq_3 replicate_Suc replicate_0)
  qed
  ultimately show "suffix [b, b, b] H" by (rule suffix_order.trans[rotated])
qed

lemma inv_no_triple:
  assumes "case lastC of None \<Rightarrow> H = [] \<and> stab = 0
           | Some l \<Rightarrow> H \<noteq> [] \<and> last H = l \<and> stab = runLength l H"
    and "stab < 3"
  shows "\<not> suffix [b, b, b] H"
proof (cases lastC)
  case None
  then show ?thesis using assms by (simp add: suffix3_iff)
next
  case (Some l)
  then have h: "H \<noteq> []" "last H = l" "stab = runLength l H" using assms by auto
  show ?thesis
  proof (cases "b = l")
    case True
    then show ?thesis using h assms(2) by (simp add: suffix3_iff)
  next
    case False
    then have "runLength b H = 0" using h by (simp add: runLength_other)
    then show ?thesis by (simp add: suffix3_iff)
  qed
qed

text \<open>
  The loop invariant: \<open>lastCandidate\<close> is the last candidate-bearing observation so
  far and \<open>stableCount\<close> is the length of the run of it that ends them. The loop
  returns at the first poll where that run reaches three, and not before.
\<close>

lemma waitLoop_exact:
  "waitLoop sq known cnt lastC stab ts = Inr (r, n) \<Longrightarrow>
   (case lastC of None \<Rightarrow> H = [] \<and> stab = 0
    | Some l \<Rightarrow> H \<noteq> [] \<and> last H = l \<and> stab = runLength l H) \<Longrightarrow>
   stab < 3 \<Longrightarrow>
   \<exists>m \<le> length ts. n = cnt + m
     \<and> (\<forall>j < m. \<forall>b. \<not> suffix [b, b, b] (H @ seen (take j (observations sq known ts))))
     \<and> (case r of
          Some a \<Rightarrow> 0 < m \<and> observations sq known ts ! (m - 1) = Some a
                    \<and> suffix [a, a, a] (H @ seen (take m (observations sq known ts)))
        | None \<Rightarrow> m = length ts
                    \<and> (\<forall>b. \<not> suffix [b, b, b] (H @ seen (observations sq known ts))))"
proof (induction ts arbitrary: known cnt lastC stab H)
  case Nil
  then have "r = None" "n = cnt" by (simp_all add: waitLoop.simps(1))
  moreover have "\<forall>b. \<not> suffix [b, b, b] H"
    using inv_no_triple [OF Nil.prems(2) Nil.prems(3)] by blast
  ultimately show ?case by simp
next
  case (Cons t ts)
  have noH: "\<And>b. \<not> suffix [b, b, b] H"
    using inv_no_triple [OF Cons.prems(2) Cons.prems(3)] by blast
  show ?case
  proof (cases "tickCandidate known t")
    case None
    have rr: "waitLoop sq known (cnt + 1) lastC stab ts = Inr (r, n)"
      using None Cons.prems(1) by (rule waitLoop_skip)
    from Cons.IH [OF rr Cons.prems(2) Cons.prems(3)] obtain m where
      m: "m \<le> length ts" "n = cnt + 1 + m"
         "\<forall>j < m. \<forall>b. \<not> suffix [b, b, b] (H @ seen (take j (observations sq known ts)))"
         "case r of
            Some a \<Rightarrow> 0 < m \<and> observations sq known ts ! (m - 1) = Some a
                    \<and> suffix [a, a, a] (H @ seen (take m (observations sq known ts)))
          | None \<Rightarrow> m = length ts
                    \<and> (\<forall>b. \<not> suffix [b, b, b] (H @ seen (observations sq known ts)))"
      by blast
    have obs: "observations sq known (t # ts) = None # observations sq known ts"
      using None by simp
    have before: "\<forall>j < Suc m. \<forall>b.
        \<not> suffix [b, b, b] (H @ seen (take j (observations sq known (t # ts))))"
    proof (intro allI impI)
      fix j b assume "j < Suc m"
      then show "\<not> suffix [b, b, b] (H @ seen (take j (observations sq known (t # ts))))"
        using noH m(3) obs by (cases j) auto
    qed
    have res: "case r of
            Some a \<Rightarrow> 0 < Suc m \<and> observations sq known (t # ts) ! (Suc m - 1) = Some a
                    \<and> suffix [a, a, a] (H @ seen (take (Suc m) (observations sq known (t # ts))))
          | None \<Rightarrow> Suc m = length (t # ts)
                    \<and> (\<forall>b. \<not> suffix [b, b, b] (H @ seen (observations sq known (t # ts))))"
      using m(4) obs by (auto split: option.splits simp: nth_Cons')
    show ?thesis
      using m(1,2) before res by (intro exI [of _ "Suc m"]) simp
  next
    case (Some c)
    show ?thesis
    proof (cases "toLowerCase c = sq")
      case True
      have rr: "waitLoop sq (setAdd (hashString c) known) (cnt + 1) lastC stab ts = Inr (r, n)"
        using Some True Cons.prems(1) by (rule waitLoop_echo)
      let ?k = "setAdd (hashString c) known"
      from Cons.IH [OF rr Cons.prems(2) Cons.prems(3)] obtain m where
        m: "m \<le> length ts" "n = cnt + 1 + m"
           "\<forall>j < m. \<forall>b. \<not> suffix [b, b, b] (H @ seen (take j (observations sq ?k ts)))"
           "case r of
              Some a \<Rightarrow> 0 < m \<and> observations sq ?k ts ! (m - 1) = Some a
                      \<and> suffix [a, a, a] (H @ seen (take m (observations sq ?k ts)))
            | None \<Rightarrow> m = length ts
                      \<and> (\<forall>b. \<not> suffix [b, b, b] (H @ seen (observations sq ?k ts)))"
        by blast
      have obs: "observations sq known (t # ts) = None # observations sq ?k ts"
        using Some True by simp
      have before: "\<forall>j < Suc m. \<forall>b.
          \<not> suffix [b, b, b] (H @ seen (take j (observations sq known (t # ts))))"
      proof (intro allI impI)
        fix j b assume "j < Suc m"
        then show "\<not> suffix [b, b, b] (H @ seen (take j (observations sq known (t # ts))))"
          using noH m(3) obs by (cases j) auto
      qed
      have res: "case r of
              Some a \<Rightarrow> 0 < Suc m \<and> observations sq known (t # ts) ! (Suc m - 1) = Some a
                      \<and> suffix [a, a, a] (H @ seen (take (Suc m) (observations sq known (t # ts))))
            | None \<Rightarrow> Suc m = length (t # ts)
                      \<and> (\<forall>b. \<not> suffix [b, b, b] (H @ seen (observations sq known (t # ts))))"
        using m(4) obs by (auto split: option.splits simp: nth_Cons')
      show ?thesis
        using m(1,2) before res by (intro exI [of _ "Suc m"]) simp
    next
      case False
      define st where "st = (if Some c = lastC then stab + 1 else 1)"
      have obs: "observations sq known (t # ts) = Some c # observations sq known ts"
        using Some False by simp
      have st: "st = runLength c (H @ [c])"
      proof (cases "Some c = lastC")
        case True
        then have "stab = runLength c H" using Cons.prems(2) by (auto split: option.splits)
        then show ?thesis using True by (simp add: st_def runLength_snoc)
      next
        case ne: False
        have "runLength c H = 0"
        proof (cases lastC)
          case None
          then show ?thesis using Cons.prems(2) by simp
        next
          case (Some l)
          then have "H \<noteq> []" "last H = l" "l \<noteq> c" using Cons.prems(2) ne by auto
          then show ?thesis by (simp add: runLength_other)
        qed
        then show ?thesis using ne by (simp add: st_def runLength_snoc)
      qed
      have inv': "case Some c of None \<Rightarrow> H @ [c] = [] \<and> st = 0
           | Some l \<Rightarrow> H @ [c] \<noteq> [] \<and> last (H @ [c]) = l \<and> st = runLength l (H @ [c])"
        using st by simp
      have eq: "waitLoop sq known cnt lastC stab (t # ts) =
          (if st \<ge> 3 then Inr (Some c, cnt + 1)
           else afterWait t (waitLoop sq known (cnt + 1) (Some c) st ts))"
        unfolding st_def by (rule waitLoop_cand [OF Some False])
      show ?thesis
      proof (cases "st \<ge> 3")
        case True
        then have rn: "r = Some c" "n = cnt + 1" using Cons.prems(1) eq by auto
        have "3 \<le> runLength c (H @ [c])" using True st by simp
        then have "suffix [c, c, c] (H @ [c])" by (simp only: suffix3_iff)
        then show ?thesis
          using rn obs noH by (intro exI [of _ 1]) auto
      next
        case nst: False
        then have rr: "waitLoop sq known (cnt + 1) (Some c) st ts = Inr (r, n)"
          using Cons.prems(1) eq by (simp add: afterWait_Inr)
        have lt: "st < 3" using nst by simp
        from Cons.IH [OF rr inv' lt] obtain m where
          m: "m \<le> length ts" "n = cnt + 1 + m"
             "\<forall>j < m. \<forall>b. \<not> suffix [b, b, b] ((H @ [c]) @ seen (take j (observations sq known ts)))"
             "case r of
                Some a \<Rightarrow> 0 < m \<and> observations sq known ts ! (m - 1) = Some a
                        \<and> suffix [a, a, a] ((H @ [c]) @ seen (take m (observations sq known ts)))
              | None \<Rightarrow> m = length ts
                        \<and> (\<forall>b. \<not> suffix [b, b, b] ((H @ [c]) @ seen (observations sq known ts)))"
          by blast
        have before: "\<forall>j < Suc m. \<forall>b.
            \<not> suffix [b, b, b] (H @ seen (take j (observations sq known (t # ts))))"
        proof (intro allI impI)
          fix j b assume "j < Suc m"
          then show "\<not> suffix [b, b, b] (H @ seen (take j (observations sq known (t # ts))))"
            using noH m(3) obs by (cases j) auto
        qed
        have res: "case r of
                Some a \<Rightarrow> 0 < Suc m \<and> observations sq known (t # ts) ! (Suc m - 1) = Some a
                        \<and> suffix [a, a, a] (H @ seen (take (Suc m) (observations sq known (t # ts))))
              | None \<Rightarrow> Suc m = length (t # ts)
                        \<and> (\<forall>b. \<not> suffix [b, b, b] (H @ seen (observations sq known (t # ts))))"
          using m(4) obs by (auto split: option.splits simp: nth_Cons')
        show ?thesis
          using m(1,2) before res by (intro exI [of _ "Suc m"]) simp
      qed
    qed
  qed
qed


lemma waitLoop_returns:
  "\<forall>t \<in> set polls. waitErr t = None \<Longrightarrow>
   \<exists>r n. waitLoop sq known pc lc sc polls = Inr (r, n)"
proof (induction polls arbitrary: known pc lc sc)
  case Nil
  show ?case by (simp add: waitLoop.simps)
next
  case (Cons t ts)
  have w: "waitErr t = None" using Cons.prems by simp
  have ih: "\<And>known pc lc sc. \<exists>r n. waitLoop sq known pc lc sc ts = Inr (r, n)"
    using Cons.IH Cons.prems by simp
  have aw: "\<And>k :: error + (string option \<times> nat). afterWait t k = k"
    using w by (simp add: afterWait_def)
  show ?case
    by (simp add: waitLoop.simps(2) aw Let_def ih split: option.split)
qed

text \<open>
  Claim C1, as amended. Whenever the completion detector returns without an error, with
  \<open>pollCount = n\<close>: at no poll before \<open>n\<close> were the last three candidate-bearing
  observations the same text; if it returns a text \<open>a\<close>, poll \<open>n\<close> observed \<open>a\<close>
  and the last three candidate-bearing observations up to poll \<open>n\<close> are all \<open>a\<close>
  (the stability counter has reached 3, so \<open>n\<close> is at least 3); if it returns null, the
  polls are used up and no three candidate-bearing observations in a row were the same.
  Polls that observe nothing (the thinking branch skips them, nothing new is extracted,
  or the text is the echo of the question) neither count nor reset the counter. For the
  polls "Hel", "Hello", "Hello world", "Hello world", "Hello world" the result is
  "Hello world" at the 5th poll, and a candidate that changes on poll 3 after two
  identical polls is not returned. When the wait of the thinking branch throws, the poll
  is not skipped: it observes the text and counts. The detector returns (a text or
  null) whenever no wait that ends an iteration throws.
\<close>

theorem waitForLatestAnswer_stable_three:
  "(waitForLatestAnswerAt question ignoreTexts polls = Inr (r, n) \<longrightarrow>
      n \<le> length polls
      \<and> (\<forall>j < n. \<forall>b. \<not> suffix [b, b, b] (seen (take j (observed question ignoreTexts polls))))
      \<and> (\<forall>a. r = Some a \<longrightarrow>
            3 \<le> n \<and> observed question ignoreTexts polls ! (n - 1) = Some a
            \<and> suffix [a, a, a] (seen (take n (observed question ignoreTexts polls))))
      \<and> (r = None \<longrightarrow>
            n = length polls
            \<and> (\<forall>b. \<not> suffix [b, b, b] (seen (observed question ignoreTexts polls)))))
   \<and> ((\<forall>t \<in> set polls. waitErr t = None) \<longrightarrow>
        (\<exists>r n. waitForLatestAnswerAt question ignoreTexts polls = Inr (r, n)))
   \<and> waitForLatestAnswerAt ''Say hello'' []
        (map (tick \<circ> answerPage)
           [[''Hel''], [''Hello''], [''Hello world''], [''Hello world''], [''Hello world'']])
       = Inr (Some ''Hello world'', 5)
   \<and> waitForLatestAnswerAt ''Say hello'' []
        (map (tick \<circ> answerPage) [[''Hello''], [''Hello''], [''Hello world'']])
       = Inr (None, 3)
   \<and> waitForLatestAnswerAt ''Say hello'' []
        [tick (answerPage [''Hello'']), tick (answerPage [''Hello'']),
         lostTick (thinkingPage [''Hello''])]
       = Inr (Some ''Hello'', 3)"
proof -
  let ?obs = "observed question ignoreTexts polls"
  have gen: "waitForLatestAnswerAt question ignoreTexts polls = Inr (r, n) \<longrightarrow>
      n \<le> length polls
      \<and> (\<forall>j < n. \<forall>b. \<not> suffix [b, b, b] (seen (take j ?obs)))
      \<and> (\<forall>a. r = Some a \<longrightarrow>
            3 \<le> n \<and> ?obs ! (n - 1) = Some a \<and> suffix [a, a, a] (seen (take n ?obs)))
      \<and> (r = None \<longrightarrow> n = length polls \<and> (\<forall>b. \<not> suffix [b, b, b] (seen ?obs)))"
  proof
    assume res: "waitForLatestAnswerAt question ignoreTexts polls = Inr (r, n)"
    have inv: "case (None :: string option) of
                 None \<Rightarrow> ([] :: string list) = [] \<and> (0::nat) = 0
               | Some l \<Rightarrow> ([] :: string list) \<noteq> [] \<and> last [] = l \<and> (0::nat) = runLength l []"
      by simp
    from waitLoop_exact [OF res [unfolded waitForLatestAnswerAt_def] inv]
    obtain m where m: "m \<le> length polls" "n = m"
      "\<forall>j < m. \<forall>b. \<not> suffix [b, b, b] (seen (take j ?obs))"
      "case r of
         Some a \<Rightarrow> 0 < m \<and> ?obs ! (m - 1) = Some a \<and> suffix [a, a, a] (seen (take m ?obs))
       | None \<Rightarrow> m = length polls \<and> (\<forall>b. \<not> suffix [b, b, b] (seen ?obs))"
      unfolding observed_def by (cases r) auto
    have g1: "n \<le> length polls" using m by simp
    have g2: "\<forall>j < n. \<forall>b. \<not> suffix [b, b, b] (seen (take j ?obs))" using m by simp
    have g3: "\<forall>a. r = Some a \<longrightarrow>
            3 \<le> n \<and> ?obs ! (n - 1) = Some a \<and> suffix [a, a, a] (seen (take n ?obs))"
    proof (intro allI impI)
      fix a assume ra: "r = Some a"
      then have f: "?obs ! (n - 1) = Some a" "suffix [a, a, a] (seen (take n ?obs))"
        using m by auto
      have "length [a, a, a] \<le> length (seen (take n ?obs))"
        using f(2) by (rule suffix_length_le)
      also have "\<dots> \<le> length (take n ?obs)" by (rule length_seen)
      also have "\<dots> \<le> n" by simp
      finally have "3 \<le> n" by simp
      then show "3 \<le> n \<and> ?obs ! (n - 1) = Some a \<and> suffix [a, a, a] (seen (take n ?obs))"
        using f by simp
    qed
    have g4: "r = None \<longrightarrow> n = length polls \<and> (\<forall>b. \<not> suffix [b, b, b] (seen ?obs))"
      using m by auto
    show "n \<le> length polls
      \<and> (\<forall>j < n. \<forall>b. \<not> suffix [b, b, b] (seen (take j ?obs)))
      \<and> (\<forall>a. r = Some a \<longrightarrow>
            3 \<le> n \<and> ?obs ! (n - 1) = Some a \<and> suffix [a, a, a] (seen (take n ?obs)))
      \<and> (r = None \<longrightarrow> n = length polls \<and> (\<forall>b. \<not> suffix [b, b, b] (seen ?obs)))"
      by (intro conjI g1 g2 g3 g4)
  qed
  have e1: "waitForLatestAnswerAt ''Say hello'' []
        (map (tick \<circ> answerPage)
           [[''Hel''], [''Hello''], [''Hello world''], [''Hello world''], [''Hello world'']])
       = Inr (Some ''Hello world'', 5)" by code_simp
  have e2: "waitForLatestAnswerAt ''Say hello'' []
        (map (tick \<circ> answerPage) [[''Hello''], [''Hello''], [''Hello world'']])
       = Inr (None, 3)" by code_simp
  have e3: "waitForLatestAnswerAt ''Say hello'' []
        [tick (answerPage [''Hello'']), tick (answerPage [''Hello'']),
         lostTick (thinkingPage [''Hello''])]
       = Inr (Some ''Hello'', 3)" by code_simp
  have tot: "(\<forall>t \<in> set polls. waitErr t = None) \<longrightarrow>
        (\<exists>r n. waitForLatestAnswerAt question ignoreTexts polls = Inr (r, n))"
    unfolding waitForLatestAnswerAt_def using waitLoop_returns by blast
  show ?thesis by (intro conjI gen tot e1 e2 e3)
qed

theorem waitForLatestAnswer_stable_three_witness:
  "waitForLatestAnswerAt ''Say hello'' []
        (map (tick \<circ> answerPage)
           [[''Hel''], [''Hello''], [''Hello world''], [''Hello world''], [''Hello world'']])
       = Inr (Some ''Hello world'', 5)
   \<and> suffix [''Hello world'', ''Hello world'', ''Hello world'']
        (seen (take 5 (observed ''Say hello'' []
           (map (tick \<circ> answerPage)
           [[''Hel''], [''Hello''], [''Hello world''], [''Hello world''], [''Hello world'']]))))
   \<and> \<not> suffix [''Hello world'', ''Hello world'', ''Hello world'']
        (seen (take 4 (observed ''Say hello'' []
           (map (tick \<circ> answerPage)
           [[''Hel''], [''Hello''], [''Hello world''], [''Hello world''], [''Hello world'']]))))
   \<and> (\<forall>b. \<not> suffix [b, b, b]
        (seen (observed ''Say hello'' []
           (map (tick \<circ> answerPage) [[''Hello''], [''Hello''], [''Hello world'']]))))
   \<and> map waitErr (map (tick \<circ> answerPage)
           [[''Hel''], [''Hello''], [''Hello world''], [''Hello world''], [''Hello world'']])
       = [None, None, None, None, None]"
proof -
  let ?p5 = "map (tick \<circ> answerPage)
           [[''Hel''], [''Hello''], [''Hello world''], [''Hello world''], [''Hello world'']]"
  let ?p3 = "map (tick \<circ> answerPage) [[''Hello''], [''Hello''], [''Hello world'']]"
  have h5: "waitForLatestAnswerAt ''Say hello'' [] ?p5 = Inr (Some ''Hello world'', 5)"
    by code_simp
  have h3: "waitForLatestAnswerAt ''Say hello'' [] ?p3 = Inr (None, 3)"
    by code_simp
  from h5 waitForLatestAnswer_stable_three [of "''Say hello''" "[]" ?p5 "Some ''Hello world''" 5]
  have a: "suffix [''Hello world'', ''Hello world'', ''Hello world'']
             (seen (take 5 (observed ''Say hello'' [] ?p5)))"
    and b: "\<forall>j < 5. \<forall>b. \<not> suffix [b, b, b] (seen (take j (observed ''Say hello'' [] ?p5)))"
    by blast+
  from h3 waitForLatestAnswer_stable_three [of "''Say hello''" "[]" ?p3 None 3]
  have c: "\<forall>b. \<not> suffix [b, b, b] (seen (observed ''Say hello'' [] ?p3))"
    by blast
  from b have b4: "\<not> suffix [''Hello world'', ''Hello world'', ''Hello world'']
        (seen (take 4 (observed ''Say hello'' [] ?p5)))" by simp
  have d: "map waitErr ?p5 = [None, None, None, None, None]" by (simp add: tick_def)
  from h5 a b4 c d show ?thesis by blast
qed

text \<open>
  The claim as stated fails: with the thinking indicator visible at poll 2 the detector
  returns "Hello" at poll 4, although polls 2, 3 and 4 did not all observe it.
\<close>

theorem waitForLatestAnswer_consecutive_counterexample:
  "waitForLatestAnswerAt ''Say hello'' []
     [tick (answerPage [''Hello'']), tick (thinkingPage [''Hello world'']),
      tick (answerPage [''Hello'']), tick (answerPage [''Hello''])] = Inr (Some ''Hello'', 4)
   \<and> observed ''Say hello'' []
     [tick (answerPage [''Hello'']), tick (thinkingPage [''Hello world'']),
      tick (answerPage [''Hello'']), tick (answerPage [''Hello''])]
     = [Some ''Hello'', None, Some ''Hello'', Some ''Hello'']"
  by code_simp

section \<open>Properties of the text extraction\<close>

lemma find_append_first:
  "find P (xs @ ys) = (case find P xs of Some x \<Rightarrow> Some x | None \<Rightarrow> find P ys)"
  by (induction xs) auto

lemma scanContainers_find:
  "scanContainers known cs = firstUnseen known (textBlocks cs)"
proof (induction cs)
  case Nil
  show ?case by (simp add: firstUnseen_def textBlocks_def)
next
  case (Cons c cs)
  then show ?case
    by (auto simp: firstUnseen_def textBlocks_def containerText_def
             split: js.splits option.splits)
qed

lemma scanElements_find:
  "scanElements known es = firstUnseen known (seen (map elementText es))"
proof (induction es)
  case Nil
  show ?case by (simp add: firstUnseen_def)
next
  case (Cons e es)
  then show ?case
    by (auto simp: firstUnseen_def elementText_def split: js.splits)
qed

lemma scanSelectors_find:
  "scanSelectors p known sels = firstUnseen known (concat (map (selectorBlocks p) sels))"
proof (induction sels)
  case Nil
  show ?case by (simp add: firstUnseen_def)
next
  case (Cons s sels)
  then show ?case
    by (auto simp: firstUnseen_def selectorBlocks_def scanElements_find find_append_first
             split: js.splits option.splits)
qed

text \<open>
  With no container at all the early exit always applies, since the number of known
  hashes is never negative: the branch for a page without containers, and the fallback
  selectors after it, are reached only when the primary query throws.
\<close>

lemma extractLatestText_no_containers:
  "primary p = Returned [] \<Longrightarrow> extractLatestText p known = None"
  by (simp add: extractLatestText_def)

text \<open>
  Claim C2, as amended. On the primary container path, when the page holds more
  containers than there are known hashes, extractLatestText returns the first non-blank
  text block in document order whose hash is not known (null when there is none, with no
  fallback); when it holds containers, but no more of them than there are known hashes,
  it returns null. When the primary query throws and the prioritized fallback selectors
  reach an unseen text block, it returns the first such block, in selector priority and
  then document order.
\<close>

theorem extractLatestText_first_unseen:
  "(primary p = Returned cs \<and> length known < length cs \<longrightarrow>
      extractLatestText p known = firstUnseen known (textBlocks cs))
   \<and> (primary p = Returned cs \<and> 0 < length cs \<and> length cs \<le> length known \<longrightarrow>
      extractLatestText p known = None)
   \<and> (primary p = Threw \<and> firstUnseen known (fallbackBlocks p) \<noteq> None \<longrightarrow>
      extractLatestText p known = firstUnseen known (fallbackBlocks p))"
proof (intro conjI impI)
  assume "primary p = Returned cs \<and> length known < length cs"
  then show "extractLatestText p known = firstUnseen known (textBlocks cs)"
    by (auto simp: extractLatestText_def scanContainers_find)
next
  assume "primary p = Returned cs \<and> 0 < length cs \<and> length cs \<le> length known"
  then show "extractLatestText p known = None"
    by (simp add: extractLatestText_def)
next
  assume a: "primary p = Threw \<and> firstUnseen known (fallbackBlocks p) \<noteq> None"
  then obtain t where t: "firstUnseen known (fallbackBlocks p) = Some t" by auto
  then have "scanSelectors p known RESPONSE_SELECTORS = Some t"
    by (simp add: scanSelectors_find fallbackBlocks_def)
  then show "extractLatestText p known = firstUnseen known (fallbackBlocks p)"
    using a t by (simp add: extractLatestText_def extractFallback_def)
qed


theorem extractLatestText_first_unseen_witness:
  "extractLatestText (answerPage [''old one'', ''new answer'']) [hashString ''old one'']
     = Some ''new answer''
   \<and> extractLatestText (answerPage [''old one'']) [hashString ''old one''] = None
   \<and> extractLatestText
        (fallbackOnlyPage [\<lparr> closest = Returned None, own = Returned ''old answer'' \<rparr>,
                           \<lparr> closest = Threw, own = Returned '' new answer '' \<rparr>])
        [hashString ''old answer''] = Some ''new answer''"
proof -
  let ?cs = "[Returned (Some (Returned ''old one'')), Returned (Some (Returned ''new answer''))]"
  let ?fb = "fallbackOnlyPage [\<lparr> closest = Returned None, own = Returned ''old answer'' \<rparr>,
                           \<lparr> closest = Threw, own = Returned '' new answer '' \<rparr>]"
  have h1: "primary (answerPage [''old one'', ''new answer'']) = Returned ?cs
            \<and> length [hashString ''old one''] < length ?cs"
    by (simp add: answerPage_def)
  have v1: "firstUnseen [hashString ''old one''] (textBlocks ?cs) = Some ''new answer''"
    by code_simp
  have h2: "primary (answerPage [''old one'']) = Returned [Returned (Some (Returned ''old one''))]
            \<and> 0 < length [Returned (Some (Returned ''old one'')) :: container]
            \<and> length [Returned (Some (Returned ''old one'')) :: container]
                \<le> length [hashString ''old one'']"
    by (simp add: answerPage_def)
  have v3: "firstUnseen [hashString ''old answer''] (fallbackBlocks ?fb) = Some ''new answer''"
    by code_simp
  have h3: "primary ?fb = Threw \<and> firstUnseen [hashString ''old answer''] (fallbackBlocks ?fb) \<noteq> None"
    using v3 by (simp add: fallbackOnlyPage_def)
  from extractLatestText_first_unseen [of "answerPage [''old one'', ''new answer'']" ?cs "[hashString ''old one'']"] h1 v1
  have r1: "extractLatestText (answerPage [''old one'', ''new answer'']) [hashString ''old one'']
     = Some ''new answer''" by simp
  from extractLatestText_first_unseen [of "answerPage [''old one'']" "[Returned (Some (Returned ''old one''))]"
              "[hashString ''old one'']"] h2
  have r2: "extractLatestText (answerPage [''old one'']) [hashString ''old one''] = None" by blast
  from extractLatestText_first_unseen [of ?fb _ "[hashString ''old answer'']"] h3 v3
  have r3: "extractLatestText ?fb [hashString ''old answer''] = Some ''new answer''" by simp
  from r1 r2 r3 show ?thesis by blast
qed

text \<open>
  The claim as stated fails on two paths. A page with one container holding new text
  gives null when two hashes are known (the early exit compares the number of containers
  with the number of known hashes), and the raw scan returns its last candidate although
  that text's hash is known and an unseen text precedes it.
\<close>

theorem extractLatestText_counterexample:
  "extractLatestText (answerPage [''new answer'']) [hashString ''old one'', hashString ''old two''] = None
   \<and> firstUnseen [hashString ''old one'', hashString ''old two''] (textBlocks [Returned (Some (Returned ''new answer''))]) = Some ''new answer''
   \<and> extractLatestText (rawOnlyPage [\<lparr> elId = 0, visible = True, innerTextOf = ''first'', textContentOf = ''first'' \<rparr>, \<lparr> elId = 1, visible = True, innerTextOf = ''second'', textContentOf = ''second'' \<rparr>]) [hashString ''second''] = Some ''second''"
  by code_simp

section \<open>Properties of the credential checks\<close>

lemma expiredNames_empty:
  "(expiredNames t cs = []) = (\<forall>c \<in> set cs. expiresOr c = - 1 \<or> t \<le> expiresOr c)"
  by (induction cs) auto

text \<open>
  Claim C6, as amended. validateCookiesExpiry returns true exactly when at least one
  critical cookie is present and every critical cookie present is either session-scoped
  (no expiry, or expires = -1) or has an expiry that is not earlier than the current time
  the check computes, \<open>Date.now() / 1000\<close>.
\<close>

theorem validateCookiesExpiry_iff:
  "validateCookiesExpiry (Returned cookies) currentTime =
     ((\<exists>c \<in> set cookies. isCritical c)
      \<and> (\<forall>c \<in> set cookies. isCritical c \<longrightarrow> unexpired currentTime c))"
  by (auto simp: validateCookiesExpiry_def Let_def expiredNames_empty isCritical_def
        unexpired_def filter_empty_conv)

theorem validateCookiesExpiry_iff_witness:
  "validateCookiesExpiry
     (Returned [\<lparr> name = ''SID'', domain = ''.google.com'', expires = Some 2000 \<rparr>,
                \<lparr> name = ''OSID'', domain = ''notebooklm.google.com'', expires = None \<rparr>,
                \<lparr> name = ''NID'', domain = ''.google.com'', expires = Some 5 \<rparr>]) 1000"
proof -
  let ?cs = "[\<lparr> name = ''SID'', domain = ''.google.com'', expires = Some 2000 \<rparr>,
                \<lparr> name = ''OSID'', domain = ''notebooklm.google.com'', expires = None \<rparr>,
                \<lparr> name = ''NID'', domain = ''.google.com'', expires = Some (5::real) \<rparr>]"
  have "(\<exists>c \<in> set ?cs. isCritical c) \<and> (\<forall>c \<in> set ?cs. isCritical c \<longrightarrow> unexpired 1000 c)"
    by (simp add: isCritical_def unexpired_def expiresOr_def CRITICAL_COOKIE_NAMES_def)
  then show ?thesis using validateCookiesExpiry_iff [of ?cs 1000] by blast
qed

text \<open>
  The claim as stated fails: the critical cookie SID is present with an expiry in the
  future, yet the check returns false, because another critical cookie has expired.
\<close>

theorem validateCookiesExpiry_counterexample:
  "\<not> validateCookiesExpiry
     (Returned [\<lparr> name = ''SID'', domain = ''.google.com'', expires = Some 2000 \<rparr>,
                \<lparr> name = ''HSID'', domain = ''.google.com'', expires = Some 500 \<rparr>]) 1000
   \<and> isCritical \<lparr> name = ''SID'', domain = ''.google.com'', expires = Some 2000 \<rparr>
   \<and> expires \<lparr> name = ''SID'', domain = ''.google.com'', expires = Some 2000 \<rparr> = Some 2000
   \<and> (1000::real) < 2000"
  by (simp add: validateCookiesExpiry_def Let_def isCritical_def expiresOr_def CRITICAL_COOKIE_NAMES_def)

text \<open>
  Claim C7. For a state file older than 24 hours getValidStatePath returns null,
  whatever cookies are recorded in it and whether or not the file is found.
\<close>

theorem getValidStatePath_stale:
  "(nowMs - m) / 1000 > 24 * 60 * 60 \<Longrightarrow>
   getValidStatePath stateFilePath \<lparr> fileExists = ex, mtimeMs = Returned m, savedCookies = cs \<rparr> nowMs = None"
  by (simp add: getValidStatePath_def getStatePath_def isStateExpired_def Let_def)

theorem getValidStatePath_stale_witness:
  "getValidStatePath ''state.json''
     \<lparr> fileExists = True, mtimeMs = Returned 0,
       savedCookies = [\<lparr> name = ''SID'', domain = ''.google.com'', expires = Some 99999999 \<rparr>] \<rparr>
     86400500 = None
   \<and> validateCookiesExpiry
       (Returned [\<lparr> name = ''SID'', domain = ''.google.com'', expires = Some 99999999 \<rparr>])
       (172801 / 2)
   \<and> getValidStatePath ''state.json''
     \<lparr> fileExists = True, mtimeMs = Returned 0,
       savedCookies = [\<lparr> name = ''SID'', domain = ''.google.com'', expires = Some 99999999 \<rparr>] \<rparr>
     86400000 = Some ''state.json''"
proof -
  have h: "((86400500::real) - 0) / 1000 > 24 * 60 * 60" by simp
  have v: "validateCookiesExpiry
       (Returned [\<lparr> name = ''SID'', domain = ''.google.com'', expires = Some 99999999 \<rparr>])
       (172801 / 2)"
    by (simp add: validateCookiesExpiry_def Let_def expiresOr_def CRITICAL_COOKIE_NAMES_def)
  have w: "getValidStatePath ''state.json''
     \<lparr> fileExists = True, mtimeMs = Returned 0,
       savedCookies = [\<lparr> name = ''SID'', domain = ''.google.com'', expires = Some 99999999 \<rparr>] \<rparr>
     86400000 = Some ''state.json''"
    by (simp add: getValidStatePath_def getStatePath_def isStateExpired_def Let_def)
  from getValidStatePath_stale [OF h, of "''state.json''" True] v w show ?thesis by simp
qed

section \<open>Properties of ask\<close>

lemma init_messageCount: "init s env = (s', l, r) \<Longrightarrow> messageCount s' = messageCount s"
  by (auto simp: init_def initFailed_def Let_def split: if_splits sum.splits option.splits)


lemma ensureInitialized_messageCount:
  "ensureInitialized s env = (s', l, r) \<Longrightarrow> messageCount s' = messageCount s"
  by (auto simp: ensureInitialized_def split: if_splits prod.splits dest: init_messageCount)


lemma askUntilAnswer_messageCount:
  "askUntilAnswer s q env = (s', l, r) \<Longrightarrow> messageCount s' = messageCount s"
  by (auto simp: askUntilAnswer_def Let_def
           split: prod.splits option.splits sum.splits if_splits
           dest: ensureInitialized_messageCount)


lemma submitAndWait_page:
  "submitAndWait s q env = Inr a \<Longrightarrow> pageHandle s \<noteq> None"
  by (auto simp: submitAndWait_def findChatInput_def Let_def split: option.splits if_splits)

lemma askUntilAnswer_page:
  "askUntilAnswer s q env = (s', l, Inr a) \<Longrightarrow> pageHandle s' \<noteq> None"
  by (auto simp: askUntilAnswer_def Let_def
           split: prod.splits option.splits sum.splits if_splits
           dest: submitAndWait_page)

lemma askOnce_messageCount:
  "askOnce s q env = (s', l, r) \<Longrightarrow>
   messageCount s' = (case r of Inl e \<Rightarrow> messageCount s | Inr a \<Rightarrow> messageCount s + 1)"
  by (auto simp: askOnce_def Let_def split: prod.splits sum.splits if_splits
           dest: askUntilAnswer_messageCount)


text \<open>
  Claim C8. A call of ask that returns an answer leaves messageCount one higher than it
  found it; a call that fails, with whatever error and whether or not a recovery was
  tried, leaves messageCount as it was.
\<close>

theorem ask_messageCount:
  "ask s question w = (s', l, r) \<Longrightarrow>
   messageCount s' = (case r of Inl e \<Rightarrow> messageCount s | Inr answer \<Rightarrow> messageCount s + 1)"
proof -
  assume a: "ask s question w = (s', l, r)"
  obtain s1 l1 r1 where first: "askOnce s question (firstRun w) = (s1, l1, r1)"
    by (cases "askOnce s question (firstRun w)") auto
  note c1 = askOnce_messageCount [OF first]
  show ?thesis
  proof (cases r1)
    case (Inr answer)
    then show ?thesis using a first c1 by (auto simp: ask_def)
  next
    case (Inl err)
    show ?thesis
    proof (cases "closedPattern (errorString err)")
      case False
      then show ?thesis using a first c1 Inl by (auto simp: ask_def Let_def)
    next
      case True
      let ?s3 = "s1 \<lparr> initialized := False, pageHandle := None \<rparr>"
      obtain s4 l2 r2 where i: "init ?s3 (recoveryInit w) = (s4, l2, r2)"
        by (cases "init ?s3 (recoveryInit w)") auto
      have c4: "messageCount s4 = messageCount s"
        using init_messageCount [OF i] c1 Inl by simp
      show ?thesis
      proof (cases r2)
        case (Some e2)
        then show ?thesis using a first Inl True i c4 by (auto simp: ask_def Let_def)
      next
        case None
        obtain s5 l3 r3 where second: "askOnce s4 question (retryRun w) = (s5, l3, r3)"
          by (cases "askOnce s4 question (retryRun w)") auto
        note c5 = askOnce_messageCount [OF second]
        show ?thesis using a first Inl True i None second c4 c5
          by (cases r3) (auto simp: ask_def Let_def)
      qed
    qed
  qed
qed

theorem ask_messageCount_witness:
  "messageCount (fst (ask readySession ''What?''
      \<lparr> firstRun = goodRun [[''A''], [''A''], [''A'']], recoveryInit = goodInit 8,
        retryRun = goodRun [] \<rparr>)) = 5
   \<and> messageCount (fst (ask readySession ''What?''
      \<lparr> firstRun = goodRun [[''A''], [''A'']], recoveryInit = goodInit 8,
        retryRun = goodRun [] \<rparr>)) = 4"
proof -
  let ?w1 = "\<lparr> firstRun = goodRun [[''A''], [''A''], [''A'']], recoveryInit = goodInit 8,
        retryRun = goodRun [] \<rparr>"
  let ?w2 = "\<lparr> firstRun = goodRun [[''A''], [''A'']], recoveryInit = goodInit 8,
        retryRun = goodRun [] \<rparr>"
  have r1: "snd (snd (ask readySession ''What?'' ?w1)) = Inr ''A''" by code_simp
  have r2: "snd (snd (ask readySession ''What?'' ?w2))
              = Inl (Error ''Timeout waiting for response from NotebookLM'')" by code_simp
  have m: "messageCount readySession = 4" by (simp add: readySession_def)
  obtain s1 l1 where e1: "ask readySession ''What?'' ?w1 = (s1, l1, Inr ''A'')"
    using r1 by (cases "ask readySession ''What?'' ?w1") auto
  obtain s2 l2 where e2: "ask readySession ''What?'' ?w2
      = (s2, l2, Inl (Error ''Timeout waiting for response from NotebookLM''))"
    using r2 by (cases "ask readySession ''What?'' ?w2") auto
  from ask_messageCount [OF e1] ask_messageCount [OF e2] m e1 e2
  show ?thesis by simp
qed




lemma scanAlertElements_ex:
  "list_ex (\<lambda>el. case el of Threw \<Rightarrow> False
                  | Returned text \<Rightarrow> includesText (toLowerCase text) ''rate limit'') els
   \<Longrightarrow> scanAlertElements els"
  by (induction els) (auto simp: hasKeyword_def rateLimitKeywords_def split: js.splits)

lemma scanAlertSelectors_ex:
  "list_ex (\<lambda>selector. case q selector of Threw \<Rightarrow> False
       | Returned els \<Rightarrow> list_ex (\<lambda>el. case el of Threw \<Rightarrow> False
                  | Returned text \<Rightarrow> includesText (toLowerCase text) ''rate limit'') els) sels
   \<Longrightarrow> scanAlertSelectors q sels"
  by (induction sels) (auto split: js.splits dest: scanAlertElements_ex)

lemma askOnce_rate_limit:
  "askUntilAnswer s question env = (s1, l, Inr answer) \<Longrightarrow> alertShowsRateLimit (envAlerts env)
   \<Longrightarrow> askOnce s question env = (s1, l, Inl (RateLimitError rateLimitMessage))"
proof -
  assume u: "askUntilAnswer s question env = (s1, l, Inr answer)"
    and al: "alertShowsRateLimit (envAlerts env)"
  have "scanAlertSelectors (errorQuery (envAlerts env)) errorSelectors"
    using al unfolding alertShowsRateLimit_def by (rule scanAlertSelectors_ex)
  moreover have "pageHandle s1 \<noteq> None" using u by (rule askUntilAnswer_page)
  ultimately have "detectRateLimitError s1 (envAlerts env)"
    by (simp add: detectRateLimitError_def)
  then show ?thesis using u by (simp add: askOnce_def)
qed

lemma rateLimit_not_closed: "\<not> closedPattern (errorString (RateLimitError rateLimitMessage))"
  by code_simp

text \<open>
  Claim C9, as amended. Whenever a run of askOnce has extracted an answer and some
  element found by one of the error-container selectors has readable text that includes
  "rate limit" (case-insensitive), the run raises RateLimitError instead of returning the
  answer, and this is the error that ask surfaces, from its first run as from the run
  that retries.
\<close>

theorem ask_rate_limit:
  "(askUntilAnswer s question env = (s1, l, Inr answer) \<and> alertShowsRateLimit (envAlerts env)
      \<longrightarrow> askOnce s question env = (s1, l, Inl (RateLimitError rateLimitMessage)))
   \<and> (askUntilAnswer s question (firstRun w) = (s1, l, Inr answer)
        \<and> alertShowsRateLimit (envAlerts (firstRun w))
      \<longrightarrow> snd (snd (ask s question w)) = Inl (RateLimitError rateLimitMessage))
   \<and> (askOnce s question (firstRun w) = (s1, l, Inl e1) \<and> closedPattern (errorString e1)
        \<and> init (s1 \<lparr> initialized := False, pageHandle := None \<rparr>) (recoveryInit w)
             = (s4, l2, None)
        \<and> askUntilAnswer s4 question (retryRun w) = (s5, l3, Inr answer)
        \<and> alertShowsRateLimit (envAlerts (retryRun w))
      \<longrightarrow> snd (snd (ask s question w)) = Inl (RateLimitError rateLimitMessage))"
proof (intro conjI impI)
  assume "askUntilAnswer s question env = (s1, l, Inr answer) \<and> alertShowsRateLimit (envAlerts env)"
  then show "askOnce s question env = (s1, l, Inl (RateLimitError rateLimitMessage))"
    by (simp add: askOnce_rate_limit)
next
  assume "askUntilAnswer s question (firstRun w) = (s1, l, Inr answer)
        \<and> alertShowsRateLimit (envAlerts (firstRun w))"
  then have "askOnce s question (firstRun w) = (s1, l, Inl (RateLimitError rateLimitMessage))"
    by (simp add: askOnce_rate_limit)
  then show "snd (snd (ask s question w)) = Inl (RateLimitError rateLimitMessage)"
    using rateLimit_not_closed by (simp add: ask_def Let_def)
next
  assume h: "askOnce s question (firstRun w) = (s1, l, Inl e1) \<and> closedPattern (errorString e1)
        \<and> init (s1 \<lparr> initialized := False, pageHandle := None \<rparr>) (recoveryInit w)
             = (s4, l2, None)
        \<and> askUntilAnswer s4 question (retryRun w) = (s5, l3, Inr answer)
        \<and> alertShowsRateLimit (envAlerts (retryRun w))"
  then have "askOnce s4 question (retryRun w) = (s5, l3, Inl (RateLimitError rateLimitMessage))"
    by (simp add: askOnce_rate_limit)
  then show "snd (snd (ask s question w)) = Inl (RateLimitError rateLimitMessage)"
    using h by (simp add: ask_def Let_def)
qed

theorem ask_rate_limit_witness:
  "snd (snd (ask readySession ''What?''
      \<lparr> firstRun = (goodRun [[''A''], [''A''], [''A'']]) \<lparr> envAlerts := rateLimitToast \<rparr>,
        recoveryInit = goodInit 8, retryRun = goodRun [] \<rparr>))
     = Inl (RateLimitError rateLimitMessage)"
proof -
  let ?env = "(goodRun [[''A''], [''A''], [''A'']]) \<lparr> envAlerts := rateLimitToast \<rparr>"
  let ?w = "\<lparr> firstRun = ?env, recoveryInit = goodInit 8, retryRun = goodRun [] \<rparr>"
  have u: "snd (snd (askUntilAnswer readySession ''What?'' ?env)) = Inr ''A''" by code_simp
  have al: "alertShowsRateLimit (envAlerts ?env)" by code_simp
  obtain s1 l where u': "askUntilAnswer readySession ''What?'' ?env = (s1, l, Inr ''A'')"
    using u by (cases "askUntilAnswer readySession ''What?'' ?env") auto
  from ask_rate_limit [of readySession "''What?''" ?env s1 l "''A''" ?w] u' al
  show ?thesis by simp
qed

text \<open>
  The claim as stated fails: the region that holds the answer includes the text
  "rate limit", no error container does, and ask returns the answer.
\<close>

theorem ask_rate_limit_counterexample:
  "snd (snd (ask readySession ''What?''
      \<lparr> firstRun = goodRun [[''The rate limit is 50 queries per day''],
                            [''The rate limit is 50 queries per day''],
                            [''The rate limit is 50 queries per day'']],
        recoveryInit = goodInit 8, retryRun = goodRun [] \<rparr>))
     = Inr ''The rate limit is 50 queries per day''
   \<and> includesText (toLowerCase ''The rate limit is 50 queries per day'') ''rate limit''"
  by code_simp

section \<open>Properties of the session manager\<close>

lemma closeIn_eq:
  "closeIn throws s =
     (closedFrom throws s, [LogClosing (sessionId s), LogSessionClosed (sessionId s)])"
  by (cases "pageHandle s") (simp_all add: closeIn_def close_def closedFrom_def Let_def)

lemma closedFrom_facts:
  "\<not> initialized (closedFrom throws s)"
  "sessionId (closedFrom throws s) = sessionId s"
  "pageHandle (closedFrom throws s) = None \<or>
     (\<exists>h. pageHandle s = Some h \<and> throws h \<and> pageHandle (closedFrom throws s) = Some h)"
  by (cases "pageHandle s"; simp add: closedFrom_def)+

lemma closedIds_simps:
  "closedIds [] = []"
  "closedIds (LogClosing sid # l) = sid # closedIds l"
  "closedIds (LogSessionClosed sid # l) = closedIds l"
  "closedIds (LogPoolClosed sid n # l) = closedIds l"
  "closedIds (LogMaxReached # l) = closedIds l"
  "closedIds (LogRemovingOldest sid # l) = closedIds l"
  by (simp_all add: closedIds_def)

lemma closedIds_append: "closedIds (a @ b) = closedIds a @ closedIds b"
  by (simp add: closedIds_def)

lemma map_of_key: "(map_of m k \<noteq> None) = (k \<in> fst ` set m)"
  by (simp add: map_of_eq_None_iff)

text \<open>
  Claim C10. closeSession returns true exactly when the pool holds a session under the
  given id. When it returns false the pool is unchanged and no session is closed. When
  it returns true, the entry of that id is removed, every other entry is as before, and
  close() has run on exactly one session, the one that was stored under the id: it is
  marked uninitialized and has lost its tab, unless closing the tab threw.
\<close>

theorem closeSession_iff_present:
  "closeSession p sid throws = (p', cl, l, b) \<longrightarrow>
     (b = (sid \<in> fst ` set (sessions p)))
     \<and> (\<not> b \<longrightarrow> p' = p \<and> cl = [])
     \<and> (b \<longrightarrow>
          p' = p \<lparr> sessions := AList.delete sid (sessions p) \<rparr>
          \<and> map_of (sessions p') sid = None
          \<and> (\<forall>k. k \<noteq> sid \<longrightarrow> map_of (sessions p') k = map_of (sessions p) k)
          \<and> (\<exists>s c. map_of (sessions p) sid = Some s \<and> cl = [c]
                \<and> c = closedFrom throws s \<and> \<not> initialized c
                \<and> (pageHandle c = None
                    \<or> (\<exists>h. pageHandle s = Some h \<and> throws h \<and> pageHandle c = Some h))
                \<and> closedIds l = [sessionId s]))"
proof
  assume c: "closeSession p sid throws = (p', cl, l, b)"
  show "(b = (sid \<in> fst ` set (sessions p)))
     \<and> (\<not> b \<longrightarrow> p' = p \<and> cl = [])
     \<and> (b \<longrightarrow>
          p' = p \<lparr> sessions := AList.delete sid (sessions p) \<rparr>
          \<and> map_of (sessions p') sid = None
          \<and> (\<forall>k. k \<noteq> sid \<longrightarrow> map_of (sessions p') k = map_of (sessions p) k)
          \<and> (\<exists>s c. map_of (sessions p) sid = Some s \<and> cl = [c]
                \<and> c = closedFrom throws s \<and> \<not> initialized c
                \<and> (pageHandle c = None
                    \<or> (\<exists>h. pageHandle s = Some h \<and> throws h \<and> pageHandle c = Some h))
                \<and> closedIds l = [sessionId s]))"
  proof (cases "map_of (sessions p) sid")
    case None
    then have "sid \<notin> fst ` set (sessions p)" by (simp add: map_of_eq_None_iff)
    then show ?thesis using None c by (auto simp: closeSession_def)
  next
    case (Some s)
    then have k: "sid \<in> fst ` set (sessions p)" using map_of_key [of "sessions p" sid] by simp
    have r: "b" "p' = p \<lparr> sessions := AList.delete sid (sessions p) \<rparr>"
      "cl = [closedFrom throws s]"
      "l = [LogClosing (sessionId s), LogSessionClosed (sessionId s),
            LogPoolClosed sid (length (AList.delete sid (sessions p)))]"
      using c Some by (simp_all add: closeSession_def closeIn_eq Let_def)
    have ci: "closedIds l = [sessionId s]" unfolding r(4) by (simp add: closedIds_simps)
    show ?thesis
      using k r(1,2,3) ci Some closedFrom_facts(1) [of throws s] closedFrom_facts(3) [of throws s]
      by (simp add: delete_conv)
  qed
qed

theorem closeSession_iff_present_witness:
  "closeSession poolAB ''B'' (\<lambda>_. False)
     = (poolAB \<lparr> sessions := [(''A'', sessionAt ''A'' 0 1)] \<rparr>,
        [(sessionAt ''B'' 1 2) \<lparr> pageHandle := None, initialized := False \<rparr>],
        [LogClosing ''B'', LogSessionClosed ''B'', LogPoolClosed ''B'' 1], True)
   \<and> closeSession poolAB ''Z'' (\<lambda>_. False) = (poolAB, [], [LogNotFound ''Z''], False)"
proof -
  obtain p1 cl1 l1 b1 where c1: "closeSession poolAB ''B'' (\<lambda>_. False) = (p1, cl1, l1, b1)"
    by (cases "closeSession poolAB ''B'' (\<lambda>_. False)") auto
  obtain p2 cl2 l2 b2 where c2: "closeSession poolAB ''Z'' (\<lambda>_. False) = (p2, cl2, l2, b2)"
    by (cases "closeSession poolAB ''Z'' (\<lambda>_. False)") auto
  have inB: "''B'' \<in> fst ` set (sessions poolAB)" by (simp add: poolAB_def)
  have outZ: "''Z'' \<notin> fst ` set (sessions poolAB)" by (simp add: poolAB_def)
  have mB: "map_of (sessions poolAB) ''B'' = Some (sessionAt ''B'' 1 2)"
    by (simp add: poolAB_def)
  have dB: "AList.delete ''B'' (sessions poolAB) = [(''A'', sessionAt ''A'' 0 1)]"
    by (simp add: poolAB_def AList.delete_eq)
  have cf: "closedFrom (\<lambda>_. False) (sessionAt ''B'' 1 2)
              = (sessionAt ''B'' 1 2) \<lparr> pageHandle := None, initialized := False \<rparr>"
    by (simp add: closedFrom_def sessionAt_def)
  have l1: "l1 = [LogClosing ''B'', LogSessionClosed ''B'', LogPoolClosed ''B'' 1]"
    using c1 by (simp add: closeSession_def poolAB_def closeIn_eq Let_def sessionAt_def
                   AList.delete_eq)
  have l2: "l2 = [LogNotFound ''Z'']" using c2 by (simp add: closeSession_def poolAB_def)
  from closeSession_iff_present [of poolAB "''B''" "\<lambda>_. False" p1 cl1 l1 b1] c1 inB mB dB cf
  have r1: "b1" "p1 = poolAB \<lparr> sessions := [(''A'', sessionAt ''A'' 0 1)] \<rparr>"
    "cl1 = [(sessionAt ''B'' 1 2) \<lparr> pageHandle := None, initialized := False \<rparr>]"
    by auto
  from closeSession_iff_present [of poolAB "''Z''" "\<lambda>_. False" p2 cl2 l2 b2] c2 outZ
  have r2: "\<not> b2" "p2 = poolAB" "cl2 = []" by auto
  show ?thesis using c1 c2 r1 r2 l1 l2 by simp
qed

lemma update_fresh: "map_of m k = None \<Longrightarrow> AList.update k v m = m @ [(k, v)]"
  by (induction m) (auto split: if_splits)

lemma init_closedIds: "init s0 env = (s1, li, r) \<Longrightarrow> closedIds li = []"
  by (auto simp: init_def initFailed_def Let_def closedIds_def
           split: if_splits sum.splits option.splits)

lemma init_fresh:
  "init s0 env = (s1, li, None) \<Longrightarrow> \<not> initialized s0 \<Longrightarrow>
   initialized s1 \<and> sessionId s1 = sessionId s0
   \<and> li = [LogInitializing (sessionId s0), LogInitialized (sessionId s0)]"
  by (auto simp: init_def initFailed_def Let_def
           split: if_splits sum.splits option.splits)

lemma createSession_result:
  assumes c: "createSession p sid url env = (p', l, r)"
    and fresh: "map_of (sessions p) sid = None"
  shows "closedIds l = [] \<and> take 1 l = [LogCreating sid] \<and>
     (case r of
        Inl e \<Rightarrow> p' = p
      | Inr s \<Rightarrow> p' = p \<lparr> sessions := sessions p @ [(sid, s)] \<rparr> \<and> initialized s
                 \<and> sessionId s = sid
                 \<and> (\<exists>pre n. l = pre @ [LogInitializing sid, LogInitialized sid,
                                        LogRegistered sid n]))"
proof (cases "envContext env")
  case (Some e)
  then show ?thesis using c by (auto simp: createSession_def closedIds_def)
next
  case None
  define s0 where "s0 = fst (newBrowserSession sid url (envNow env))"
  have nb: "newBrowserSession sid url (envNow env) = (s0, [LogCreated sid])"
    and s0: "\<not> initialized s0" "sessionId s0 = sid"
    by (simp_all add: newBrowserSession_def s0_def)
  obtain s1 li ri where i: "init s0 (envSessionInit env) = (s1, li, ri)"
    by (cases "init s0 (envSessionInit env)") auto
  have cl: "closedIds li = []" using i by (rule init_closedIds)
  show ?thesis
  proof (cases ri)
    case (Some e)
    then have "r = Inl e" "p' = p" "l = [LogCreating sid] @ [LogCreated sid] @ li @ [LogCreateFailed e]"
      using c None nb i by (simp_all add: createSession_def)
    moreover have "closedIds ([LogCreating sid] @ [LogCreated sid] @ li @ [LogCreateFailed e]) = []"
      using cl by (simp add: closedIds_append) (simp add: closedIds_def)
    ultimately show ?thesis by simp
  next
    case rn: None
    from init_fresh [OF i [unfolded rn] s0(1)] s0(2)
    have li: "li = [LogInitializing sid, LogInitialized sid]"
      and ok: "initialized s1" "sessionId s1 = sid"
      by auto
    have r: "r = Inr s1" "p' = p \<lparr> sessions := sessions p @ [(sid, s1)] \<rparr>"
      "l = [LogCreating sid, LogCreated sid] @ [LogInitializing sid, LogInitialized sid,
              LogRegistered sid (length (sessions p @ [(sid, s1)]))]"
      using c None nb i rn li fresh
      by (simp_all add: createSession_def Let_def update_fresh)
    have "closedIds l = []" using r(3) by (simp add: closedIds_def)
    moreover have "take 1 l = [LogCreating sid]" using r(3) by simp
    moreover have "\<exists>pre n. l = pre @ [LogInitializing sid, LogInitialized sid, LogRegistered sid n]"
      using r(3) by blast
    ultimately show ?thesis using r ok by simp
  qed
qed










lemma closeAllLoop_absent:
  "map_of m sid = None \<Longrightarrow> closeAllLoop throws ks (m, cl, l) = (m', cl', l')
   \<Longrightarrow> map_of m' sid = None"
proof (induction ks arbitrary: m cl l)
  case Nil
  then show ?case by simp
next
  case (Cons k ks)
  show ?case
  proof (cases "map_of m k")
    case None
    then show ?thesis using Cons by simp
  next
    case (Some s)
    have "map_of (AList.delete k m) sid = None" using Cons.prems(1) by (simp add: delete_conv)
    moreover have "closeAllLoop throws ks
        (AList.delete k m, cl @ [closedFrom throws s],
         l @ [LogClosing (sessionId s), LogSessionClosed (sessionId s)]) = (m', cl', l')"
      using Cons.prems(2) Some by (simp add: closeIn_eq)
    ultimately show ?thesis by (rule Cons.IH)
  qed
qed

lemma closeAllSessions_absent:
  "map_of (sessions p) sid = None \<Longrightarrow> closeAllSessions p throws = (p', cl, l)
   \<Longrightarrow> map_of (sessions p') sid = None"
  by (auto simp: closeAllSessions_def Let_def split: if_splits prod.splits
           dest: closeAllLoop_absent)

lemma cleanupOldest_absent:
  "map_of (sessions p) sid = None \<Longrightarrow> cleanupOldestSession p throws = (p', cl, l, b)
   \<Longrightarrow> map_of (sessions p') sid = None"
  by (auto simp: cleanupOldestSession_def delete_conv closeIn_eq
           split: if_splits option.splits)

lemma makeRoom_absent:
  "map_of (sessions p) sid = None \<Longrightarrow> makeRoom p env = (p', cl, l, e)
   \<Longrightarrow> map_of (sessions p') sid = None"
  by (auto simp: makeRoom_def split: if_splits prod.splits dest: cleanupOldest_absent)

lemma admit_fresh:
  assumes fresh: "map_of (sessions p) sid = None"
    and a: "admit p sid url env = (p', cl, l, r)"
  shows "case r of
           Inl e \<Rightarrow> map_of (sessions p') sid = None
         | Inr s \<Rightarrow> initialized s \<and> map_of (sessions p') sid = Some s
                    \<and> (\<exists>pre n. l = pre @ [LogInitializing sid, LogInitialized sid,
                                           LogRegistered sid n])"
proof -
  obtain p1 cl1 l1 e1 where mr: "makeRoom p env = (p1, cl1, l1, e1)"
    by (cases "makeRoom p env") auto
  have f1: "map_of (sessions p1) sid = None" using fresh mr by (rule makeRoom_absent)
  show ?thesis
  proof (cases e1)
    case (Some e)
    then show ?thesis using a mr f1 by (auto simp: admit_def)
  next
    case None
    obtain p2 l2 r2 where cs: "createSession p1 sid url env = (p2, l2, r2)"
      by (cases "createSession p1 sid url env") auto
    note cr = createSession_result [OF cs f1]
    have eq: "p' = p2" "l = l1 @ l2" "r = r2"
      using a mr None cs by (simp_all add: admit_def)
    show ?thesis
    proof (cases r2)
      case (Inl e)
      then show ?thesis using cr eq f1 by simp
    next
      case (Inr s)
      then obtain pre n where
        "l2 = pre @ [LogInitializing sid, LogInitialized sid, LogRegistered sid n]"
        using cr by auto
      then have "l = (l1 @ pre) @ [LogInitializing sid, LogInitialized sid, LogRegistered sid n]"
        using eq by simp
      then have "\<exists>pre n. l = pre @ [LogInitializing sid, LogInitialized sid, LogRegistered sid n]"
        by blast
      then show ?thesis using cr eq f1 Inr by (simp add: map_add_def)
    qed
  qed
qed

text \<open>
  Claim C5, as amended. In getOrCreateSession a newly created session is registered in
  the pool's session map only after its init() has completed: when the call returns the
  session, the log ends with the start of init, its completion, and then the
  registration, and the registered session is initialized; when the call fails, the map
  has no entry under the id.
\<close>

theorem getOrCreateSession_registers_after_init:
  "getOrCreateSession p (Some sid) notebookUrlArg overrideHeadless env = (p', cl, l, r)
     \<and> sid \<noteq> [] \<and> map_of (sessions p) sid = None \<longrightarrow>
   (case r of
      Inl e \<Rightarrow> map_of (sessions p') sid = None
    | Inr s \<Rightarrow> initialized s \<and> map_of (sessions p') sid = Some s
               \<and> (\<exists>pre n. l = pre @ [LogInitializing sid, LogInitialized sid,
                                      LogRegistered sid n]))"
proof
  assume h: "getOrCreateSession p (Some sid) notebookUrlArg overrideHeadless env = (p', cl, l, r)
     \<and> sid \<noteq> [] \<and> map_of (sessions p) sid = None"
  define targetUrl where "targetUrl =
     trim (case notebookUrlArg of
                    Some u \<Rightarrow> if u \<noteq> [] then u else envConfigUrl env
                  | None \<Rightarrow> envConfigUrl env)"
  show "case r of
      Inl e \<Rightarrow> map_of (sessions p') sid = None
    | Inr s \<Rightarrow> initialized s \<and> map_of (sessions p') sid = Some s
               \<and> (\<exists>pre n. l = pre @ [LogInitializing sid, LogInitialized sid,
                                      LogRegistered sid n])"
  proof (cases "targetUrl = [] \<or> \<not> prefix ''http'' targetUrl")
    case True
    have "\<exists>e. getOrCreateSession p (Some sid) notebookUrlArg overrideHeadless env
               = (p, [], [], Inl e)"
    proof (cases "targetUrl = []")
      case True
      then show ?thesis
        unfolding getOrCreateSession_def targetUrl_def [symmetric] by simp
    next
      case ne: False
      then have "\<not> prefix ''http'' targetUrl" using True by simp
      then show ?thesis using ne
        unfolding getOrCreateSession_def targetUrl_def [symmetric] by simp
    qed
    then show ?thesis using h by auto
  next
    case False
    define p1l1 where "p1l1 =
        (if overrideHeadless \<noteq> None \<and> envNeedsModeChange env
         then (case closeAllSessions p (envPageCloseThrows env) of
                           (q, cl, l) \<Rightarrow> (q, cl, LogModeChange # l))
         else (p, [], []))"
    obtain p1 cl1 l1 where p1: "p1l1 = (p1, cl1, l1)" by (cases p1l1)
    have f1: "map_of (sessions p1) sid = None"
      using h p1 by (auto simp: p1l1_def split: if_splits prod.splits
                          dest: closeAllSessions_absent)
    obtain p3 cl3 l3 r3 where ad: "admit p1 sid targetUrl env = (p3, cl3, l3, r3)"
      by (cases "admit p1 sid targetUrl env") auto
    note af = admit_fresh [OF f1 ad]
    have g: "getOrCreateSession p (Some sid) notebookUrlArg overrideHeadless env
               = (p3, cl1 @ cl3, l1 @ l3, r3)"
      using False h f1 ad p1
      unfolding getOrCreateSession_def targetUrl_def [symmetric] p1l1_def [symmetric]
      by (simp add: Let_def)
    then have eq: "p' = p3" "l = l1 @ l3" "r = r3" using h by simp_all
    show ?thesis
    proof (cases r3)
      case (Inl e)
      then show ?thesis using af eq by simp
    next
      case (Inr s)
      then obtain pre n where
        "l3 = pre @ [LogInitializing sid, LogInitialized sid, LogRegistered sid n]"
        using af by auto
      then have "l = (l1 @ pre) @ [LogInitializing sid, LogInitialized sid, LogRegistered sid n]"
        using eq by simp
      then have "\<exists>pre n. l = pre @ [LogInitializing sid, LogInitialized sid, LogRegistered sid n]"
        by blast
      then show ?thesis using af eq Inr by simp
    qed
  qed
qed

theorem getOrCreateSession_registers_after_init_witness:
  "map_of (sessions (fst (getOrCreateSession poolAB (Some ''C'') (Some notebookX) None
       (calmEnv \<lparr> envSessionInit := failingInit \<rparr>)))) ''C'' = None
   \<and> (\<exists>pre n.
         fst (snd (snd (getOrCreateSession poolAB (Some ''C'') (Some notebookX) None calmEnv)))
         = pre @ [LogInitializing ''C'', LogInitialized ''C'', LogRegistered ''C'' n])"
proof -
  let ?bad = "getOrCreateSession poolAB (Some ''C'') (Some notebookX) None
       (calmEnv \<lparr> envSessionInit := failingInit \<rparr>)"
  let ?good = "getOrCreateSession poolAB (Some ''C'') (Some notebookX) None calmEnv"
  have sid: "''C'' \<noteq> []" "map_of (sessions poolAB) ''C'' = None" by (simp_all add: poolAB_def)
  have b: "isl (snd (snd (snd ?bad)))" by code_simp
  have g: "\<not> isl (snd (snd (snd ?good)))" by code_simp
  obtain p1 cl1 l1 e where cb: "?bad = (p1, cl1, l1, Inl e)"
    using b by (cases ?bad; cases "snd (snd (snd ?bad))") auto
  obtain p2 cl2 l2 s where cg: "?good = (p2, cl2, l2, Inr s)"
    using g by (cases ?good; cases "snd (snd (snd ?good))") auto
  from getOrCreateSession_registers_after_init
         [of poolAB "''C''" "Some notebookX" None "calmEnv \<lparr> envSessionInit := failingInit \<rparr>"
             p1 cl1 l1 "Inl e"] cb sid
  have r1: "map_of (sessions p1) ''C'' = None" by simp
  from getOrCreateSession_registers_after_init
         [of poolAB "''C''" "Some notebookX" None calmEnv p2 cl2 l2 "Inr s"] cg sid
  have r2: "\<exists>pre n. l2 = pre @ [LogInitializing ''C'', LogInitialized ''C'', LogRegistered ''C'' n]"
    by simp
  from r1 r2 cb cg show ?thesis by simp
qed

text \<open>
  The claim as stated fails: the registration is logged after init() has completed, and
  when init() fails the call ends with the pool exactly as it was, the new session never
  having been in the map.
\<close>

theorem getOrCreateSession_registration_counterexample:
  "fst (snd (snd (getOrCreateSession (poolAB \<lparr> maxSessions := 10 \<rparr>) (Some ''C'')
                    (Some notebookX) None calmEnv)))
     = [LogCreating ''C'', LogCreated ''C'', LogInitializing ''C'', LogInitialized ''C'',
        LogRegistered ''C'' 3]
   \<and> getOrCreateSession (poolAB \<lparr> maxSessions := 10 \<rparr>) (Some ''C'') (Some notebookX) None
        (calmEnv \<lparr> envSessionInit := failingInit \<rparr>)
     = (poolAB \<lparr> maxSessions := 10 \<rparr>, [],
        [LogCreating ''C'', LogCreated ''C'', LogInitializing ''C'', LogInitFailed ''C'',
         LogCreateFailed (Error ''Could not find NotebookLM chat input.'')],
        Inl (Error ''Could not find NotebookLM chat input.''))"
  by code_simp

subsection \<open>The shape of the map is maintained\<close>

lemma set_delete_subset: "set (AList.delete k m) \<subseteq> set m"
  by (auto simp: AList.delete_eq)

lemma set_update_subset: "set (AList.update k v m) \<subseteq> insert (k, v) (set m)"
  by (induction m) auto

lemma invariant_delete:
  "poolInvariant p \<Longrightarrow> poolInvariant (p \<lparr> sessions := AList.delete k (sessions p) \<rparr>)"
proof -
  assume inv: "poolInvariant p"
  have "distinct (map fst (AList.delete k (sessions p)))"
    using inv by (simp add: poolInvariant_def distinct_delete)
  moreover have "list_all (\<lambda>(k, s). k \<noteq> [] \<and> sessionId s = k) (AList.delete k (sessions p))"
    using inv set_delete_subset [of k "sessions p"]
    by (auto simp: poolInvariant_def list_all_iff)
  ultimately show ?thesis by (simp add: poolInvariant_def)
qed

lemma invariant_add:
  "poolInvariant p \<Longrightarrow> map_of (sessions p) k = None \<Longrightarrow> k \<noteq> [] \<Longrightarrow> sessionId s = k
   \<Longrightarrow> poolInvariant (p \<lparr> sessions := sessions p @ [(k, s)] \<rparr>)"
  by (auto simp: poolInvariant_def list_all_iff map_of_eq_None_iff)

lemma closeSession_invariant:
  "poolInvariant p \<Longrightarrow> poolInvariant (fst (closeSession p sid throws))"
  by (auto simp: closeSession_def Let_def invariant_delete closeIn_eq split: option.splits)

lemma closeAllLoop_invariant:
  "poolInvariant (p \<lparr> sessions := m \<rparr>) \<Longrightarrow>
   closeAllLoop throws ks (m, cl, l) = (m', cl', l') \<Longrightarrow>
   poolInvariant (p \<lparr> sessions := m' \<rparr>)"
proof (induction ks arbitrary: m cl l)
  case Nil
  then show ?case by simp
next
  case (Cons k ks)
  show ?case
  proof (cases "map_of m k")
    case None
    then show ?thesis using Cons by simp
  next
    case (Some s)
    have "poolInvariant (p \<lparr> sessions := AList.delete k m \<rparr>)"
      using invariant_delete [OF Cons.prems(1), of k] by simp
    moreover have "closeAllLoop throws ks
        (AList.delete k m, cl @ [closedFrom throws s],
         l @ [LogClosing (sessionId s), LogSessionClosed (sessionId s)]) = (m', cl', l')"
      using Cons.prems(2) Some by (simp add: closeIn_eq)
    ultimately show ?thesis by (rule Cons.IH)
  qed
qed

lemma invariant_timer:
  "poolInvariant (p \<lparr> cleanupInterval := b \<rparr>) = poolInvariant p"
  by (simp add: poolInvariant_def)

lemma closeAllSessions_invariant:
  "poolInvariant p \<Longrightarrow> closeAllSessions p throws = (p', cl, l) \<Longrightarrow> poolInvariant p'"
proof -
  assume inv: "poolInvariant p" and c: "closeAllSessions p throws = (p', cl, l)"
  let ?p1 = "p \<lparr> cleanupInterval := False \<rparr>"
  have i1: "poolInvariant ?p1" using inv by (simp add: invariant_timer)
  show ?thesis
  proof (cases "length (sessions ?p1) = 0")
    case True
    then show ?thesis using c i1 by (simp add: closeAllSessions_def Let_def)
  next
    case False
    obtain m' cl' l' where
      lp: "closeAllLoop throws (map fst (sessions ?p1)) (sessions ?p1, [], []) = (m', cl', l')"
      by (cases "closeAllLoop throws (map fst (sessions ?p1)) (sessions ?p1, [], [])") auto
    have "poolInvariant (?p1 \<lparr> sessions := sessions ?p1 \<rparr>)" using i1 by simp
    then have "poolInvariant (?p1 \<lparr> sessions := m' \<rparr>)" using lp by (rule closeAllLoop_invariant)
    moreover have "p' = ?p1 \<lparr> sessions := m' \<rparr>"
      using c False lp by (simp add: closeAllSessions_def Let_def)
    ultimately show ?thesis by simp
  qed
qed

lemma cleanupOldest_invariant:
  "poolInvariant p \<Longrightarrow> cleanupOldestSession p throws = (p', cl, l, b) \<Longrightarrow> poolInvariant p'"
  by (auto simp: cleanupOldestSession_def invariant_delete closeIn_eq
           split: if_splits option.splits)

lemma makeRoom_invariant:
  "poolInvariant p \<Longrightarrow> makeRoom p env = (p', cl, l, e) \<Longrightarrow> poolInvariant p'"
  by (auto simp: makeRoom_def split: if_splits prod.splits dest: cleanupOldest_invariant)

lemma admit_invariant:
  assumes inv: "poolInvariant p" and fresh: "map_of (sessions p) sid = None"
    and ne: "sid \<noteq> []" and a: "admit p sid url env = (p', cl, l, r)"
  shows "poolInvariant p'"
proof -
  obtain p1 cl1 l1 e1 where mr: "makeRoom p env = (p1, cl1, l1, e1)"
    by (cases "makeRoom p env") auto
  have i1: "poolInvariant p1" using inv mr by (rule makeRoom_invariant)
  have f1: "map_of (sessions p1) sid = None" using fresh mr by (rule makeRoom_absent)
  show ?thesis
  proof (cases e1)
    case (Some e)
    then show ?thesis using a mr i1 by (auto simp: admit_def)
  next
    case None
    obtain p2 l2 r2 where cs: "createSession p1 sid url env = (p2, l2, r2)"
      by (cases "createSession p1 sid url env") auto
    note cr = createSession_result [OF cs f1]
    have eq: "p' = p2" using a mr None cs by (simp add: admit_def)
    show ?thesis
    proof (cases r2)
      case (Inl e)
      then show ?thesis using cr eq i1 by simp
    next
      case (Inr s)
      then have "p2 = p1 \<lparr> sessions := sessions p1 @ [(sid, s)] \<rparr>" "sessionId s = sid"
        using cr by auto
      then show ?thesis using eq invariant_add [OF i1 f1 ne] by simp
    qed
  qed
qed

lemma invariant_touch:
  "poolInvariant p \<Longrightarrow> map_of (sessions p) k = Some s \<Longrightarrow>
   poolInvariant (p \<lparr> sessions := AList.update k (s \<lparr> lastActivity := t \<rparr>) (sessions p) \<rparr>)"
proof -
  assume inv: "poolInvariant p" and m: "map_of (sessions p) k = Some s"
  have ks: "(k, s) \<in> set (sessions p)" using m by (rule map_of_SomeD)
  then have id: "k \<noteq> [] \<and> sessionId s = k"
    using inv by (auto simp: poolInvariant_def list_all_iff)
  have "distinct (map fst (AList.update k (s \<lparr> lastActivity := t \<rparr>) (sessions p)))"
    using inv by (simp add: poolInvariant_def distinct_update)
  moreover have "list_all (\<lambda>(k, s). k \<noteq> [] \<and> sessionId s = k)
      (AList.update k (s \<lparr> lastActivity := t \<rparr>) (sessions p))"
    using inv id set_update_subset [of k "s \<lparr> lastActivity := t \<rparr>" "sessions p"]
    by (auto simp: poolInvariant_def list_all_iff)
  ultimately show ?thesis by (simp add: poolInvariant_def)
qed

lemma getOrCreateSession_invariant:
  assumes inv: "poolInvariant p" and gen: "envGeneratedId env \<noteq> []"
  shows "poolInvariant (fst (getOrCreateSession p sessionIdArg notebookUrlArg overrideHeadless env))"
proof -
  define targetUrl where "targetUrl =
     trim (case notebookUrlArg of
                    Some u \<Rightarrow> if u \<noteq> [] then u else envConfigUrl env
                  | None \<Rightarrow> envConfigUrl env)"
  define sid where "sid = (case sessionIdArg of
                         Some i \<Rightarrow> if i \<noteq> [] then i else envGeneratedId env
                       | None \<Rightarrow> envGeneratedId env)"
  define p1l1 where "p1l1 =
        (if overrideHeadless \<noteq> None \<and> envNeedsModeChange env
         then (case closeAllSessions p (envPageCloseThrows env) of
                           (q, cl, l) \<Rightarrow> (q, cl, LogModeChange # l))
         else (p, [], []))"
  have sne: "sid \<noteq> []" using gen by (auto simp: sid_def split: option.splits)
  obtain p1 cl1 l1 where p1: "p1l1 = (p1, cl1, l1)" by (cases p1l1)
  have i1: "poolInvariant p1"
    using inv p1 by (auto simp: p1l1_def split: if_splits prod.splits
                          dest: closeAllSessions_invariant)
  show ?thesis
  proof (cases "targetUrl = [] \<or> \<not> prefix ''http'' targetUrl")
    case True
    have "fst (getOrCreateSession p sessionIdArg notebookUrlArg overrideHeadless env) = p"
    proof (cases "targetUrl = []")
      case True
      then show ?thesis
        unfolding getOrCreateSession_def targetUrl_def [symmetric] by simp
    next
      case ne: False
      then have "\<not> prefix ''http'' targetUrl" using True by simp
      then show ?thesis using ne
        unfolding getOrCreateSession_def targetUrl_def [symmetric] by simp
    qed
    then show ?thesis using inv by simp
  next
    case False
    show ?thesis
    proof (cases "map_of (sessions p1) sid")
      case None
      obtain p3 cl3 l3 r3 where ad: "admit p1 sid targetUrl env = (p3, cl3, l3, r3)"
        by (cases "admit p1 sid targetUrl env") auto
      have "poolInvariant p3" using i1 None sne ad by (rule admit_invariant)
      moreover have "fst (getOrCreateSession p sessionIdArg notebookUrlArg overrideHeadless env) = p3"
        using False None ad p1
        unfolding getOrCreateSession_def targetUrl_def [symmetric] sid_def [symmetric]
          p1l1_def [symmetric]
        by (simp add: Let_def)
      ultimately show ?thesis by simp
    next
      case (Some s)
      show ?thesis
      proof (cases "notebookUrl s \<noteq> targetUrl")
        case True
        let ?p2 = "p1 \<lparr> sessions := AList.delete sid (sessions p1) \<rparr>"
        have i2: "poolInvariant ?p2" using i1 by (rule invariant_delete)
        have f2: "map_of (sessions ?p2) sid = None" by (simp add: delete_conv)
        obtain p3 cl3 l3 r3 where ad: "admit ?p2 sid targetUrl env = (p3, cl3, l3, r3)"
          by (cases "admit ?p2 sid targetUrl env") auto
        have "poolInvariant p3" using i2 f2 sne ad by (rule admit_invariant)
        moreover have "fst (getOrCreateSession p sessionIdArg notebookUrlArg overrideHeadless env) = p3"
          using False Some True ad p1
          unfolding getOrCreateSession_def targetUrl_def [symmetric] sid_def [symmetric]
            p1l1_def [symmetric]
          by (simp add: Let_def closeIn_eq)
        ultimately show ?thesis by simp
      next
        case same: False
        have "fst (getOrCreateSession p sessionIdArg notebookUrlArg overrideHeadless env)
                = p1 \<lparr> sessions := AList.update sid (s \<lparr> lastActivity := envNow env \<rparr>) (sessions p1) \<rparr>"
          using False Some same p1
          unfolding getOrCreateSession_def targetUrl_def [symmetric] sid_def [symmetric]
            p1l1_def [symmetric]
          by (simp add: Let_def)
        then show ?thesis using invariant_touch [OF i1 Some] by simp
      qed
    qed
  qed
qed

lemma empty_invariant:
  "poolInvariant \<lparr> sessions = [], maxSessions = n, cleanupInterval = b \<rparr>"
  by (simp add: poolInvariant_def)

end
